theory Spec2Isabelle
  imports Complex_Main
begin

section \<open>Numbers\<close>

text \<open>
  The program computes with the host language's \<open>number\<close> type. The embedding keeps its
  four kinds of value: a finite number, the two infinities and NaN. Finite numbers are
  exact reals: rounding and overflow are not modelled, and the model has one zero, read as
  the positive one where the sign of a zero decides the sign of an infinity.
\<close>

datatype number = Fin real | PInf | NInf | NaN

text \<open>\<open>left + right\<close>\<close>

fun num_add :: "number \<Rightarrow> number \<Rightarrow> number" where
  "num_add (Fin a) (Fin b) = Fin (a + b)"
| "num_add (Fin a) PInf = PInf"
| "num_add (Fin a) NInf = NInf"
| "num_add PInf (Fin b) = PInf"
| "num_add PInf PInf = PInf"
| "num_add PInf NInf = NaN"
| "num_add NInf (Fin b) = NInf"
| "num_add NInf PInf = NaN"
| "num_add NInf NInf = NInf"
| "num_add NaN y = NaN"
| "num_add x NaN = NaN"

text \<open>\<open>left - right\<close>\<close>

fun num_sub :: "number \<Rightarrow> number \<Rightarrow> number" where
  "num_sub (Fin a) (Fin b) = Fin (a - b)"
| "num_sub (Fin a) PInf = NInf"
| "num_sub (Fin a) NInf = PInf"
| "num_sub PInf (Fin b) = PInf"
| "num_sub PInf PInf = NaN"
| "num_sub PInf NInf = PInf"
| "num_sub NInf (Fin b) = NInf"
| "num_sub NInf PInf = NInf"
| "num_sub NInf NInf = NaN"
| "num_sub NaN y = NaN"
| "num_sub x NaN = NaN"

text \<open>\<open>left * right\<close>: an infinity times zero is NaN.\<close>

fun num_mul :: "number \<Rightarrow> number \<Rightarrow> number" where
  "num_mul (Fin a) (Fin b) = Fin (a * b)"
| "num_mul (Fin a) PInf = (if a = 0 then NaN else if 0 < a then PInf else NInf)"
| "num_mul (Fin a) NInf = (if a = 0 then NaN else if 0 < a then NInf else PInf)"
| "num_mul PInf (Fin b) = (if b = 0 then NaN else if 0 < b then PInf else NInf)"
| "num_mul PInf PInf = PInf"
| "num_mul PInf NInf = NInf"
| "num_mul NInf (Fin b) = (if b = 0 then NaN else if 0 < b then NInf else PInf)"
| "num_mul NInf PInf = NInf"
| "num_mul NInf NInf = PInf"
| "num_mul NaN y = NaN"
| "num_mul x NaN = NaN"

text \<open>
  \<open>left / right\<close>: division by zero raises nothing. A nonzero dividend gives an infinity,
  zero by zero and infinity by infinity give NaN, a finite number by an infinity gives zero.
\<close>

fun num_div :: "number \<Rightarrow> number \<Rightarrow> number" where
  "num_div (Fin a) (Fin b) =
     (if b = 0 then (if a = 0 then NaN else if 0 < a then PInf else NInf) else Fin (a / b))"
| "num_div (Fin a) PInf = Fin 0"
| "num_div (Fin a) NInf = Fin 0"
| "num_div PInf (Fin b) = (if 0 \<le> b then PInf else NInf)"
| "num_div PInf PInf = NaN"
| "num_div PInf NInf = NaN"
| "num_div NInf (Fin b) = (if 0 \<le> b then NInf else PInf)"
| "num_div NInf PInf = NaN"
| "num_div NInf NInf = NaN"
| "num_div NaN y = NaN"
| "num_div x NaN = NaN"

text \<open>\<open>left > right\<close>: false whenever an operand is NaN.\<close>

fun num_gt :: "number \<Rightarrow> number \<Rightarrow> bool" where
  "num_gt (Fin a) (Fin b) = (b < a)"
| "num_gt (Fin a) NInf = True"
| "num_gt PInf (Fin b) = True"
| "num_gt PInf NInf = True"
| "num_gt x y = False"

text \<open>\<open>left === right\<close> on numbers: NaN is not equal to itself.\<close>

definition num_eq :: "number \<Rightarrow> number \<Rightarrow> bool" where
  "num_eq x y = (x \<noteq> NaN \<and> x = y)"

section \<open>Expressions\<close>

text \<open>\<open>type Operator = '+' | '-' | '*' | '/'\<close> and \<open>type DiceMod = 'h' | 'l'\<close>.\<close>

datatype operator = Plus | Minus | Times | Divide

datatype dicemod = KeepHighest | KeepLowest

text \<open>
  The four classes implementing \<open>Expression\<close>. The classes are not exported, so every
  \<open>Roll\<close> is built by the tokenizer from two digit strings: its fields are natural numbers.
\<close>

datatype expression =
    Literal (valueOf: number)
  | Reference (ref: string)
  | Roll (dice: nat) (sides: nat) (roll_mod: "dicemod option")
  | Operation (op: operator) (left: expression) (right: expression)

text \<open>\<open>const precedence = {'+': 0, '-': 0, '*': 1, '/': 1}\<close>\<close>

fun precedence :: "operator \<Rightarrow> nat" where
  "precedence Plus = 0"
| "precedence Minus = 0"
| "precedence Times = 1"
| "precedence Divide = 1"

fun doOp :: "operator \<Rightarrow> number \<Rightarrow> number \<Rightarrow> number" where
  "doOp Plus l r = num_add l r"
| "doOp Minus l r = num_sub l r"
| "doOp Times l r = num_mul l r"
| "doOp Divide l r = num_div l r"

text \<open>
  A \<open>Context\<close> maps variable names to numbers. Only the object's own keys are modelled
  (a lookup that the host would answer from the prototype chain is not).
\<close>

type_synonym "context" = "string \<rightharpoonup> number"

section \<open>Evaluation\<close>

text \<open>
  \<open>Math.random\<close> is an infinite sequence of values, of which \<open>drawn\<close> have been taken;
  \<open>sink\<close> is the optional array that receives a \<open>RollResult\<close> per evaluated roll.
\<close>

record rollresult =
  rolls :: "number list"
  die :: nat
  "value" :: number

record calc_state =
  drawn :: nat
  sink :: "rollresult list option"

text \<open>\<open>roll1\<close>: \<open>1 + Math.floor(Math.random() * this.sides)\<close>, on the draw \<open>u\<close>.\<close>

definition roll1 :: "real \<Rightarrow> nat \<Rightarrow> number" where
  "roll1 u s = Fin (1 + of_int \<lfloor>u * real s\<rfloor>)"

text \<open>The loop \<open>for (let i = 0; i < this.dice; i++) rolls.push(this.roll1())\<close>, from draw \<open>n\<close> on.\<close>

fun roll_loop :: "(nat \<Rightarrow> real) \<Rightarrow> nat \<Rightarrow> nat \<Rightarrow> nat \<Rightarrow> number list" where
  "roll_loop rnd s n 0 = []"
| "roll_loop rnd s n (Suc k) = roll1 (rnd n) s # roll_loop rnd s (Suc n) k"

text \<open>
  \<open>Math.max(...rolls)\<close>, \<open>Math.min(...rolls)\<close> and \<open>rolls.reduce((a, b) => a + b, 0)\<close>.
  The maximum of no argument is \<open>-Infinity\<close>, the minimum of none is \<open>Infinity\<close>, and
  NaN wins over every other argument.
\<close>

fun num_max :: "number \<Rightarrow> number \<Rightarrow> number" where
  "num_max NaN y = NaN"
| "num_max x NaN = NaN"
| "num_max x y = (if num_gt y x then y else x)"

fun num_min :: "number \<Rightarrow> number \<Rightarrow> number" where
  "num_min NaN y = NaN"
| "num_min x NaN = NaN"
| "num_min x y = (if num_gt x y then y else x)"

definition Math_max :: "number list \<Rightarrow> number" where
  "Math_max xs = foldl num_max NInf xs"

definition Math_min :: "number list \<Rightarrow> number" where
  "Math_min xs = foldl num_min PInf xs"

definition reduce_sum :: "number list \<Rightarrow> number" where
  "reduce_sum xs = foldl num_add (Fin 0) xs"

definition roll_value :: "dicemod option \<Rightarrow> number list \<Rightarrow> number" where
  "roll_value m rs =
     (case m of Some KeepHighest \<Rightarrow> Math_max rs
      | Some KeepLowest \<Rightarrow> Math_min rs
      | None \<Rightarrow> reduce_sum rs)"

text \<open>\<open>rollResults?.push(...)\<close>\<close>

definition push_result :: "rollresult \<Rightarrow> rollresult list option \<Rightarrow> rollresult list option" where
  "push_result r out = map_option (\<lambda>rs. rs @ [r]) out"

text \<open>
  \<open>calc\<close> of the four classes. An \<open>Operation\<close> evaluates \<open>this.left.calc\<close> first and
  \<open>this.right.calc\<close> second, each on the state the other left.
\<close>

fun calc :: "context \<Rightarrow> (nat \<Rightarrow> real) \<Rightarrow> expression \<Rightarrow> calc_state \<Rightarrow> number \<times> calc_state" where
  "calc ctx rnd (Literal v) st = (v, st)"
| "calc ctx rnd (Reference x) st = (case ctx x of Some v \<Rightarrow> v | None \<Rightarrow> Fin 0, st)"
| "calc ctx rnd (Roll k s m) st =
     (let rs = roll_loop rnd s (drawn st) k;
          result = roll_value m rs
      in (result,
          \<lparr>drawn = drawn st + k,
           sink = push_result \<lparr>rolls = rs, die = s, value = result\<rparr> (sink st)\<rparr>))"
| "calc ctx rnd (Operation f l r) st =
     (let (a, st1) = calc ctx rnd l st;
          (b, st2) = calc ctx rnd r st1
      in (doOp f a b, st2))"

section \<open>Simplification\<close>

text \<open>
  \<open>Operation.mergeLeft\<close>: the chain \<open>farLeft leftOp left rightOp right\<close> with two literal
  operands becomes one operation on \<open>farLeft\<close>, or \<open>farLeft\<close> itself.
\<close>

definition mergeLeft ::
  "expression \<Rightarrow> operator \<Rightarrow> number \<Rightarrow> operator \<Rightarrow> number \<Rightarrow> expression" where
  "mergeLeft farLeft leftOp l rightOp r =
     (if leftOp = rightOp then
        (if leftOp = Plus \<or> leftOp = Minus
         then Operation leftOp farLeft (Literal (num_add l r))
         else Operation leftOp farLeft (Literal (num_mul l r)))
      else if num_eq l r then farLeft
      else
        (let (f, bigger, smaller) = (if num_gt l r then (leftOp, l, r) else (rightOp, r, l))
         in if f = Plus \<or> f = Minus
            then Operation f farLeft (Literal (num_sub bigger smaller))
            else Operation f farLeft (Literal (num_div bigger smaller))))"

text \<open>\<open>context?.[this.ref]\<close>: the context of \<open>simplify\<close> is optional.\<close>

definition lookup :: "context option \<Rightarrow> string \<Rightarrow> number option" where
  "lookup ctx x = (case ctx of None \<Rightarrow> None | Some c \<Rightarrow> c x)"

text \<open>
  \<open>simplify\<close> of the four classes. The program tells an unchanged subtree by object
  identity (\<open>left === this.left\<close>, \<open>return this\<close>); the second component of the result
  says whether the returned object is the receiver itself. Every other result is an
  object that is new or a proper part of a simplified child.
\<close>

fun simplify :: "context option \<Rightarrow> expression \<Rightarrow> expression \<times> bool" where
  "simplify ctx (Literal v) = (Literal v, True)"
| "simplify ctx (Roll k s m) = (Roll k s m, True)"
| "simplify ctx (Reference x) =
     (case lookup ctx x of Some v \<Rightarrow> (Literal v, False) | None \<Rightarrow> (Reference x, True))"
| "simplify ctx (Operation f l r) =
     (let (l', same_l) = simplify ctx l;
          (r', same_r) = simplify ctx r
      in if is_Literal l' \<and> is_Literal r'
         then (Literal (doOp f (valueOf l') (valueOf r')), False)
         else if is_Literal r' \<and> is_Operation l' \<and> precedence (op l') = precedence f
                 \<and> is_Literal (right l')
         then (mergeLeft (left l') (op l') (valueOf (right l')) f (valueOf r'), False)
         else if same_l \<and> same_r then (Operation f l r, True)
         else (Operation f l' r', False))"

section \<open>Tokens\<close>

text \<open>
  \<open>type Token = Reference | Literal | Roll | Punctuation\<close>: a token is an operand, already
  an expression object, or one of the six punctuation strings.
\<close>

datatype punctuation = Op operator | LParen | RParen

datatype token = Operand expression | Punct punctuation

text \<open>
  The character classes of \<open>tokenPattern\<close>. Input characters are code units below 256,
  so \<open>\s\<close> is tab, line feed, vertical tab, form feed, carriage return, space and the
  no-break space. The class that continues a symbol is \<open>[$a-zA-Z1-9_.]\<close>, as written in
  the pattern.
\<close>

definition is_space :: "char \<Rightarrow> bool" where
  "is_space c = (of_char c \<in> {9, 10, 11, 12, 13, 32, 160 :: nat})"

definition is_digit :: "char \<Rightarrow> bool" where
  "is_digit c = (c \<in> set ''0123456789'')"

definition is_letter :: "char \<Rightarrow> bool" where
  "is_letter c = (c \<in> set ''abcdefghijklmnopqrstuvwxyzABCDEFGHIJKLMNOPQRSTUVWXYZ'')"

definition is_sym_start :: "char \<Rightarrow> bool" where
  "is_sym_start c = (c = CHR ''$'' \<or> is_letter c \<or> c = CHR ''_'')"

definition is_sym_char :: "char \<Rightarrow> bool" where
  "is_sym_char c =
     (c = CHR ''$'' \<or> is_letter c \<or> c \<in> set ''123456789'' \<or> c = CHR ''_'' \<or> c = CHR ''.'')"

text \<open>
  \<open>Number(text)\<close> on the text of a digit group, and on the text of the group \<open>lit\<close>
  (an optional minus sign, digits, and optionally a point and digits).
\<close>

definition digit_value :: "char \<Rightarrow> nat" where
  "digit_value c = of_char c - 48"

definition digits_value :: "string \<Rightarrow> nat" where
  "digits_value ds = foldl (\<lambda>n c. 10 * n + digit_value c) 0 ds"

definition literal_value :: "string \<Rightarrow> number" where
  "literal_value txt =
     (let negative = (txt \<noteq> [] \<and> hd txt = CHR ''-'');
          body = (if negative then tl txt else txt);
          whole = takeWhile is_digit body;
          frac = drop (Suc (length whole)) body;
          magnitude = real (digits_value whole) + real (digits_value frac) / 10 ^ length frac
      in Fin (if negative then - magnitude else magnitude))"

text \<open>
  The four alternatives of \<open>tokenPattern\<close>, each from the position after \<open>\s*\<close>. Each gives
  the text of its groups and the input left after the match. Every quantifier is greedy
  and nothing follows an alternative, so no shorter match is ever tried with success.
\<close>

text \<open>\<open>(?<sym>[$a-zA-Z_][$a-zA-Z1-9_.]*)\<close>\<close>

definition match_sym :: "string \<Rightarrow> (string \<times> string) option" where
  "match_sym s =
     (case s of
        [] \<Rightarrow> None
      | c # cs \<Rightarrow>
          if is_sym_start c
          then Some (c # takeWhile is_sym_char cs, dropWhile is_sym_char cs)
          else None)"

text \<open>\<open>(?<dice>\d+)d(?<sides>\d+)(?<mod>[hl])?\<close>\<close>

definition match_dice :: "string \<Rightarrow> ((string \<times> string \<times> dicemod option) \<times> string) option" where
  "match_dice s =
     (let d = takeWhile is_digit s; s1 = dropWhile is_digit s
      in if d = [] then None
         else (case s1 of
                 [] \<Rightarrow> None
               | c # s2 \<Rightarrow>
                   if c \<noteq> CHR ''d'' then None
                   else (let sd = takeWhile is_digit s2; s3 = dropWhile is_digit s2
                         in if sd = [] then None
                            else (case s3 of
                                    [] \<Rightarrow> Some ((d, sd, None), s3)
                                  | m # s4 \<Rightarrow>
                                      if m = CHR ''h'' then Some ((d, sd, Some KeepHighest), s4)
                                      else if m = CHR ''l'' then Some ((d, sd, Some KeepLowest), s4)
                                      else Some ((d, sd, None), s3)))))"

text \<open>\<open>(?<lit>-?\d+(?:\.\d+)?)\<close>\<close>

definition match_lit :: "string \<Rightarrow> (string \<times> string) option" where
  "match_lit s =
     (let sign = (if s \<noteq> [] \<and> hd s = CHR ''-'' then [CHR ''-''] else []);
          s0 = drop (length sign) s;
          whole = takeWhile is_digit s0;
          s1 = dropWhile is_digit s0
      in if whole = [] then None
         else (case s1 of
                 [] \<Rightarrow> Some (sign @ whole, s1)
               | c # s2 \<Rightarrow>
                   if c = CHR ''.'' \<and> takeWhile is_digit s2 \<noteq> []
                   then Some (sign @ whole @ [CHR ''.''] @ takeWhile is_digit s2,
                              dropWhile is_digit s2)
                   else Some (sign @ whole, s1)))"

text \<open>\<open>(?<op>[*/()+-])\<close>\<close>

definition match_op :: "string \<Rightarrow> (punctuation \<times> string) option" where
  "match_op s =
     (case s of
        [] \<Rightarrow> None
      | c # cs \<Rightarrow>
          if c = CHR ''*'' then Some (Op Times, cs)
          else if c = CHR ''/'' then Some (Op Divide, cs)
          else if c = CHR ''('' then Some (LParen, cs)
          else if c = CHR '')'' then Some (RParen, cs)
          else if c = CHR ''+'' then Some (Op Plus, cs)
          else if c = CHR ''-'' then Some (Op Minus, cs)
          else None)"

text \<open>
  One \<open>tokenPattern.exec\<close> at the current position and the token built from its groups:
  the alternatives are tried in the order of the pattern, and \<open>None\<close> is the failed match.
\<close>

definition next_token :: "string \<Rightarrow> (token \<times> string) option" where
  "next_token s =
     (let s1 = dropWhile is_space s
      in case match_sym s1 of
           Some (name, rest) \<Rightarrow> Some (Operand (Reference name), rest)
         | None \<Rightarrow>
        (case match_dice s1 of
           Some ((d, sd, m), rest) \<Rightarrow>
             Some (Operand (Roll (digits_value d) (digits_value sd) m), rest)
         | None \<Rightarrow>
        (case match_lit s1 of
           Some (txt, rest) \<Rightarrow> Some (Operand (Literal (literal_value txt)), rest)
         | None \<Rightarrow>
        (case match_op s1 of
           Some (p, rest) \<Rightarrow> Some (Punct p, rest)
         | None \<Rightarrow> None))))"

lemma length_dropWhile_less:
  "takeWhile P xs \<noteq> [] \<Longrightarrow> length (dropWhile P xs) < length xs"
  by (cases xs) (auto simp: less_Suc_eq_le length_dropWhile_le split: if_splits)

lemma match_sym_shorter: "match_sym s = Some (name, rest) \<Longrightarrow> length rest < length s"
  by (auto simp: match_sym_def less_Suc_eq_le length_dropWhile_le split: list.splits if_splits)

lemma match_dice_shorter: "match_dice s = Some (g, rest) \<Longrightarrow> length rest < length s"
proof -
  assume m: "match_dice s = Some (g, rest)"
  from m obtain s2 where s2: "dropWhile is_digit s = CHR ''d'' # s2"
    by (auto simp: match_dice_def Let_def split: if_splits list.splits)
  define s3 where "s3 = dropWhile is_digit s2"
  have "length s3 \<le> length s2" unfolding s3_def by (rule length_dropWhile_le)
  moreover from m s2 have "length rest \<le> length s3"
    by (cases s3) (auto simp: match_dice_def Let_def s3_def [symmetric] split: if_splits)
  moreover have "length (dropWhile is_digit s) \<le> length s" by (rule length_dropWhile_le)
  ultimately show ?thesis using s2 by simp
qed

lemma match_lit_shorter: "match_lit s = Some (txt, rest) \<Longrightarrow> length rest < length s"
proof -
  assume m: "match_lit s = Some (txt, rest)"
  define s0 where "s0 = drop (length (if s \<noteq> [] \<and> hd s = CHR ''-'' then [CHR ''-''] else [])) s"
  define s1 where "s1 = dropWhile is_digit s0"
  have s0: "length s0 \<le> length s" by (simp add: s0_def)
  from m have w: "takeWhile is_digit s0 \<noteq> []"
    by (auto simp: match_lit_def Let_def s0_def split: if_splits)
  then have d: "length s1 < length s0"
    unfolding s1_def by (rule length_dropWhile_less)
  have "length rest \<le> length s1"
  proof (cases s1)
    case Nil
    with m w show ?thesis
      by (auto simp: match_lit_def Let_def s0_def [symmetric] s1_def [symmetric])
  next
    case (Cons c s2)
    have "length (dropWhile is_digit s2) \<le> length s2" by (rule length_dropWhile_le)
    with m w Cons show ?thesis
      by (auto simp: match_lit_def Let_def s0_def [symmetric] s1_def [symmetric]
          split: if_splits)
  qed
  with d s0 show ?thesis by simp
qed

lemma match_op_shorter: "match_op s = Some (p, rest) \<Longrightarrow> length rest < length s"
  by (auto simp: match_op_def split: list.splits if_splits)

lemma next_token_shorter: "next_token s = Some (t, rest) \<Longrightarrow> length rest < length s"
proof -
  assume n: "next_token s = Some (t, rest)"
  have le: "length (dropWhile is_space s) \<le> length s" by (rule length_dropWhile_le)
  from n have "length rest < length (dropWhile is_space s)"
    by (auto simp: next_token_def Let_def split: option.splits prod.splits
        dest: match_sym_shorter match_dice_shorter match_lit_shorter match_op_shorter)
  with le show ?thesis by simp
qed

text \<open>
  The generator \<open>tokenize\<close>, run to its end: it yields a token per match while input is
  left (\<open>tokenPattern.lastIndex < endIdx\<close>) and throws \<open>SyntaxError\<close> at the first failed
  match. The list holds what a consumer meets, in order; \<open>Throw\<close> can only come last.
\<close>

datatype event = Yield token | Throw

function tokenize :: "string \<Rightarrow> event list" where
  "tokenize s =
     (if s = [] then []
      else (case next_token s of
              None \<Rightarrow> [Throw]
            | Some (t, rest) \<Rightarrow> Yield t # tokenize rest))"
  by pat_completeness auto
termination
  by (relation "measure length") (auto dest: next_token_shorter)

declare tokenize.simps [simp del]

section \<open>Parser\<close>

text \<open>
  The two error classes that \<open>parse\<close> throws, each with the fixed head of its message.
\<close>

datatype error = SyntaxError string | Error string

type_synonym parsed = "error + expression \<times> event list"

text \<open>
  \<open>opParser(op1, op2, nextParser)\<close> is called twice: \<open>parseTerm\<close> is
  \<open>opParser('*', '/', parseFactor)\<close> and \<open>parseExpr\<close> is \<open>opParser('+', '-', parseTerm)\<close>.
  A \<open>level\<close> names the closure, \<open>accepts\<close> is its test \<open>op == op1 || op == op2\<close>.
\<close>

datatype level = ExprLevel | TermLevel

fun accepts :: "level \<Rightarrow> operator \<Rightarrow> bool" where
  "accepts ExprLevel f = (f = Plus \<or> f = Minus)"
| "accepts TermLevel f = (f = Times \<or> f = Divide)"

text \<open>
  A \<open>Tokenizer\<close> is the list of events still to come: \<open>peek\<close> reads its head, \<open>next\<close>
  removes it, and reaching \<open>Throw\<close> either way raises the tokenizer's \<open>SyntaxError\<close>.
  Each function returns the expression with the events left, or the error thrown.
  \<open>opLoop\<close> is the \<open>while\<close> loop of \<open>opParser\<close>, entered with \<open>left\<close>.
\<close>

function parseFactor :: "event list \<Rightarrow> parsed"
  and opParser :: "level \<Rightarrow> event list \<Rightarrow> parsed"
  and opLoop :: "level \<Rightarrow> expression \<Rightarrow> event list \<Rightarrow> parsed"
where
  "parseFactor ts =
     (case ts of
        [] \<Rightarrow> Inl (Error ''Incomplete expression'')
      | Throw # rest \<Rightarrow> Inl (SyntaxError ''Unexpected input'')
      | Yield (Operand e) # rest \<Rightarrow> Inr (e, rest)
      | Yield (Punct LParen) # rest \<Rightarrow>
          (case opParser ExprLevel rest of
             Inl err \<Rightarrow> Inl err
           | Inr (expr, rest') \<Rightarrow>
               (case rest' of
                  Yield (Punct RParen) # rest'' \<Rightarrow> Inr (expr, rest'')
                | Throw # rest'' \<Rightarrow> Inl (SyntaxError ''Unexpected input'')
                | _ \<Rightarrow> Inl (Error ''Unmatched parenthesis'')))
      | Yield (Punct p) # rest \<Rightarrow> Inl (Error ''Unexpected operator''))"
| "opParser lvl ts =
     (case (case lvl of ExprLevel \<Rightarrow> opParser TermLevel ts | TermLevel \<Rightarrow> parseFactor ts) of
        Inl err \<Rightarrow> Inl err
      | Inr (l, rest) \<Rightarrow> opLoop lvl l rest)"
| "opLoop lvl l ts =
     (case ts of
        Yield (Punct (Op f)) # rest \<Rightarrow>
          (if accepts lvl f
           then (case (case lvl of ExprLevel \<Rightarrow> opParser TermLevel rest
                       | TermLevel \<Rightarrow> parseFactor rest) of
                   Inl err \<Rightarrow> Inl err
                 | Inr (r, rest') \<Rightarrow> opLoop lvl (Operation f l r) rest')
           else Inr (l, ts))
      | Throw # rest \<Rightarrow> Inl (SyntaxError ''Unexpected input'')
      | _ \<Rightarrow> Inr (l, ts))"
  by pat_completeness auto

text \<open>Every parsing function that returns has consumed input; the loop never adds any.\<close>

lemma consumes_dom:
  "parseFactor_opParser_opLoop_dom (Inl ts) \<Longrightarrow>
     parseFactor ts = Inr (e, out) \<Longrightarrow> length out < length ts"
  "parseFactor_opParser_opLoop_dom (Inr (Inl (lvl, ts))) \<Longrightarrow>
     opParser lvl ts = Inr (e, out) \<Longrightarrow> length out < length ts"
  "parseFactor_opParser_opLoop_dom (Inr (Inr (lvl, l, ts))) \<Longrightarrow>
     opLoop lvl l ts = Inr (e, out) \<Longrightarrow> length out \<le> length ts"
proof (induction ts and lvl ts and lvl l ts arbitrary: e out and e out and e out
       rule: parseFactor_opParser_opLoop.pinduct)
  case (1 ts)
  then show ?case
    by (fastforce simp: parseFactor.psimps
        split: list.splits event.splits token.splits punctuation.splits sum.splits)
next
  case (2 lvl ts)
  then show ?case
    by (cases lvl) (fastforce simp: opParser.psimps split: sum.splits)+
next
  case (3 lvl l ts)
  then show ?case
    by (cases lvl) (fastforce simp: opLoop.psimps
        split: list.splits event.splits token.splits punctuation.splits sum.splits if_splits)+
qed

termination parseFactor
proof (relation "measure (\<lambda>x. case x of
          Inl ts \<Rightarrow> 4 * length ts
        | Inr (Inl (lvl, ts)) \<Rightarrow>
            4 * length ts + (case lvl of ExprLevel \<Rightarrow> 2 | TermLevel \<Rightarrow> 1)
        | Inr (Inr (lvl, l, ts)) \<Rightarrow> 4 * length ts + 3)", goal_cases)
  case 1
  show ?case by simp
next
  case (2 ts)
  then show ?case by simp
next
  case (3 lvl ts)
  then show ?case by simp
next
  case (4 lvl ts)
  then show ?case by simp
next
  case (5 lvl ts b l out)
  then show ?case by (cases lvl) (auto dest: consumes_dom)
next
  case (6 lvl l ts)
  then show ?case by simp
next
  case (7 lvl l ts)
  then show ?case by simp
next
  case (8 lvl l ts)
  then show ?case by (cases lvl) (auto dest: consumes_dom)
qed

declare parseFactor.simps [simp del] opParser.simps [simp del] opLoop.simps [simp del]

definition parseTerm :: "event list \<Rightarrow> parsed" where
  "parseTerm = opParser TermLevel"

definition parseExpr :: "event list \<Rightarrow> parsed" where
  "parseExpr = opParser ExprLevel"

text \<open>\<open>input.trim()\<close>\<close>

definition trim :: "string \<Rightarrow> string" where
  "trim s = rev (dropWhile is_space (rev (dropWhile is_space s)))"

text \<open>
  \<open>parse\<close>: after \<open>parseExpr\<close>, a token that is left is an error.
\<close>

definition parse :: "string \<Rightarrow> error + expression" where
  "parse input =
     (case parseExpr (tokenize (trim input)) of
        Inl err \<Rightarrow> Inl err
      | Inr (expr, rest) \<Rightarrow>
          (case rest of
             [] \<Rightarrow> Inr expr
           | Throw # ts \<Rightarrow> Inl (SyntaxError ''Unexpected input'')
           | Yield tok # ts \<Rightarrow> Inl (SyntaxError ''Unexpected token'')))"

section \<open>Printer\<close>

text \<open>
  A number is printed by the host. NaN, the infinities, zero and the sign are fixed by the
  language; the digits of a positive finite number follow from its binary representation,
  which the embedding does not have, so they are the parameter \<open>digits\<close>.
\<close>

definition numberToString :: "(real \<Rightarrow> string) \<Rightarrow> number \<Rightarrow> string" where
  "numberToString digits v =
     (case v of
        NaN \<Rightarrow> ''NaN''
      | PInf \<Rightarrow> ''Infinity''
      | NInf \<Rightarrow> ''-Infinity''
      | Fin x \<Rightarrow>
          if x = 0 then ''0''
          else if x < 0 then CHR ''-'' # digits (- x)
          else digits x)"

fun operatorToString :: "operator \<Rightarrow> string" where
  "operatorToString Plus = ''+''"
| "operatorToString Minus = ''-''"
| "operatorToString Times = ''*''"
| "operatorToString Divide = ''/''"

text \<open>\<open>toString\<close> of the four classes.\<close>

fun toString :: "(real \<Rightarrow> string) \<Rightarrow> expression \<Rightarrow> string" where
  "toString digits (Literal v) = numberToString digits v"
| "toString digits (Reference x) = x"
| "toString digits (Roll k s m) =
     numberToString digits (Fin (real k)) @ ''d'' @ numberToString digits (Fin (real s)) @
     (case m of None \<Rightarrow> '''' | Some KeepHighest \<Rightarrow> ''h'' | Some KeepLowest \<Rightarrow> ''l'')"
| "toString digits (Operation f l r) =
     (if is_Operation l \<and> precedence f > precedence (op l)
      then ''('' @ toString digits l @ '')''
      else toString digits l)
     @ '' '' @ operatorToString f @ '' '' @
     (if is_Operation r \<and> precedence f \<ge> precedence (op r)
      then ''('' @ toString digits r @ '')''
      else toString digits r)"

section \<open>Evaluating concrete inputs\<close>

lemmas lex_simps =
  tokenize.simps next_token_def match_sym_def match_dice_def match_lit_def match_op_def
  is_space_def is_digit_def is_letter_def is_sym_start_def is_sym_char_def
  digit_value_def digits_value_def literal_value_def Let_def trim_def

lemmas parse_simps =
  parse_def parseExpr_def parseTerm_def parseFactor.simps opParser.simps opLoop.simps

lemmas merge_simps = mergeLeft_def num_eq_def lookup_def Let_def

lemmas roll_simps = roll_value_def reduce_sum_def Math_max_def Math_min_def roll1_def
  push_result_def Let_def

section \<open>Rolls and normal forms\<close>

text \<open>The \<open>Roll\<close> nodes of an expression, from left to right.\<close>

fun rolls_of :: "expression \<Rightarrow> expression list" where
  "rolls_of (Roll k s m) = [Roll k s m]"
| "rolls_of (Operation f l r) = rolls_of l @ rolls_of r"
| "rolls_of (Literal v) = []"
| "rolls_of (Reference x) = []"

text \<open>Evaluating a list of rolls one after the other, each on the state the last one left.\<close>

definition run_rolls :: "(nat \<Rightarrow> real) \<Rightarrow> expression list \<Rightarrow> calc_state \<Rightarrow> calc_state" where
  "run_rolls rnd rs st = foldl (\<lambda>st r. snd (calc Map.empty rnd r st)) st rs"

text \<open>
  An expression on which no rule of \<open>simplify\<close> applies: no reference that the context
  resolves, no operation on two literals, no chain that \<open>mergeLeft\<close> would merge.
\<close>

fun normal :: "context option \<Rightarrow> expression \<Rightarrow> bool" where
  "normal ctx (Literal v) = True"
| "normal ctx (Roll k s m) = True"
| "normal ctx (Reference x) = (lookup ctx x = None)"
| "normal ctx (Operation f l r) =
     (normal ctx l \<and> normal ctx r \<and> \<not> (is_Literal l \<and> is_Literal r) \<and>
      \<not> (is_Literal r \<and> is_Operation l \<and> precedence (op l) = precedence f \<and>
         is_Literal (right l)))"

lemma simplify_same: "simplify ctx e = (e', True) \<Longrightarrow> e' = e"
  by (induction e arbitrary: e')
     (auto simp: Let_def split: prod.splits option.splits if_splits)

lemma normal_mergeLeft:
  "normal ctx (Operation g fl (Literal a)) \<Longrightarrow> precedence g = precedence f \<Longrightarrow>
   normal ctx (mergeLeft fl g a f b)"
  by (cases g; cases f) (auto simp: mergeLeft_def Let_def)

lemma normal_simplify: "normal ctx (fst (simplify ctx e))"
proof (induction e)
  case (Operation f l r)
  obtain l' sl where l: "simplify ctx l = (l', sl)" by fastforce
  obtain r' sr where r: "simplify ctx r = (r', sr)" by fastforce
  from Operation l r have nl: "normal ctx l'" and nr: "normal ctx r'" by auto
  show ?case
  proof (cases "is_Literal l' \<and> is_Literal r'")
    case True
    then show ?thesis using l r by simp
  next
    case False
    show ?thesis
    proof (cases "is_Literal r' \<and> is_Operation l' \<and> precedence (op l') = precedence f
                  \<and> is_Literal (right l')")
      case True
      then obtain g fl a where l': "l' = Operation g fl (Literal a)"
        by (cases l'; cases "right l'") auto
      from True l' nl have "normal ctx (mergeLeft fl g a f (valueOf r'))"
        by (intro normal_mergeLeft) auto
      then show ?thesis using l r True False l' by simp
    next
      case unmerged: False
      then show ?thesis
        using l r False nl nr simplify_same [of ctx l l'] simplify_same [of ctx r r']
        by (cases sl; cases sr) auto
    qed
  qed
qed (auto split: option.splits)

lemma simplify_normal: "normal ctx e \<Longrightarrow> simplify ctx e = (e, True)"
  by (induction e) auto

lemma rolls_of_mergeLeft: "rolls_of (mergeLeft fl g a f b) = rolls_of fl"
  by (simp add: mergeLeft_def Let_def)

lemma rolls_of_simplify: "rolls_of (fst (simplify ctx e)) = rolls_of e"
proof (induction e)
  case (Operation f l r)
  obtain l' sl where l: "simplify ctx l = (l', sl)" by fastforce
  obtain r' sr where r: "simplify ctx r = (r', sr)" by fastforce
  from Operation l r have il: "rolls_of l' = rolls_of l" and ir: "rolls_of r' = rolls_of r"
    by auto
  show ?case
  proof (cases "is_Literal l' \<and> is_Literal r'")
    case True
    then have "rolls_of l' = []" "rolls_of r' = []" by (cases l'; cases r'; simp)+
    then show ?thesis using l r True il ir by simp
  next
    case False
    show ?thesis
    proof (cases "is_Literal r' \<and> is_Operation l' \<and> precedence (op l') = precedence f
                  \<and> is_Literal (right l')")
      case True
      then have "rolls_of l' = rolls_of (left l')" "rolls_of r' = []"
        by (cases l'; cases "right l'"; cases r'; simp)+
      then show ?thesis using l r True False il ir by (simp add: rolls_of_mergeLeft)
    next
      case unmerged: False
      then show ?thesis using l r False il ir by auto
    qed
  qed
qed (auto split: option.splits)

lemma run_rolls_append: "run_rolls rnd (xs @ ys) st = run_rolls rnd ys (run_rolls rnd xs st)"
  by (simp add: run_rolls_def)

lemma calc_state: "snd (calc ctx rnd e st) = run_rolls rnd (rolls_of e) st"
proof (induction e arbitrary: st)
  case (Operation f l r)
  obtain a st1 where l: "calc ctx rnd l st = (a, st1)" by fastforce
  obtain b st2 where r: "calc ctx rnd r st1 = (b, st2)" by fastforce
  from Operation.IH(1) [of st] l have "st1 = run_rolls rnd (rolls_of l) st" by simp
  moreover from Operation.IH(2) [of st1] r have "st2 = run_rolls rnd (rolls_of r) st1" by simp
  ultimately show ?case using l r by (simp add: run_rolls_append)
qed (simp_all add: run_rolls_def Let_def)

section \<open>Claims about the simplifier\<close>

text \<open>
  C1. Simplification is claimed to preserve the value: \<open>calc\<close> of \<open>simplify(e, C)\<close> equals
  \<open>calc\<close> of \<open>e\<close> under the same context and the same draws. The program breaks this on
  \<open>1d6 * 0 / 0\<close>: \<open>mergeLeft\<close> finds the two literals equal under operators of the same
  precedence and returns the roll alone, whose value is a die face, while the expression
  itself evaluates to NaN (zero by zero), whatever the context and the draws.
\<close>

theorem simplify_cancels_zero_by_zero:
  "parse ''1d6 * 0 / 0'' =
     Inr (Operation Divide (Operation Times (Roll 1 6 None) (Literal (Fin 0))) (Literal (Fin 0))) \<and>
   fst (simplify (Some C)
         (Operation Divide (Operation Times (Roll 1 6 None) (Literal (Fin 0))) (Literal (Fin 0))))
     = Roll 1 6 None \<and>
   fst (calc C rnd
         (Operation Divide (Operation Times (Roll 1 6 None) (Literal (Fin 0))) (Literal (Fin 0))) st)
     = NaN \<and>
   fst (calc C rnd (Roll 1 6 None) st) = Fin (1 + of_int \<lfloor>rnd (drawn st) * 6\<rfloor>)"
  by (simp add: lex_simps parse_simps merge_simps roll_simps split: prod.splits)

text \<open>
  C7. \<open>simplify\<close> is idempotent: simplifying a simplified expression returns it, and
  returns it as the same object. The result of \<open>simplify\<close> is the receiver itself exactly
  when nothing in the expression changed.
\<close>

theorem simplify_idempotent:
  "simplify ctx (fst (simplify ctx e)) = (fst (simplify ctx e), True) \<and>
   (snd (simplify ctx e) \<longleftrightarrow> fst (simplify ctx e) = e)"
proof
  show "simplify ctx (fst (simplify ctx e)) = (fst (simplify ctx e), True)"
    by (rule simplify_normal) (rule normal_simplify)
  show "snd (simplify ctx e) \<longleftrightarrow> fst (simplify ctx e) = e"
  proof
    assume "snd (simplify ctx e)"
    then have "simplify ctx e = (fst (simplify ctx e), True)" by (simp add: prod_eq_iff)
    then show "fst (simplify ctx e) = e" by (rule simplify_same)
  next
    assume "fst (simplify ctx e) = e"
    then have "normal ctx e" using normal_simplify [of ctx e] by simp
    then show "snd (simplify ctx e)" by (simp add: simplify_normal)
  qed
qed

text \<open>The theorem at \<open>a + 5 - 2\<close>, which simplifies to \<open>a + 3\<close> and no further.\<close>

theorem simplify_idempotent_witness:
  "simplify None
     (Operation Minus (Operation Plus (Reference ''a'') (Literal (Fin 5))) (Literal (Fin 2)))
     = (Operation Plus (Reference ''a'') (Literal (Fin 3)), False) \<and>
   simplify None (Operation Plus (Reference ''a'') (Literal (Fin 3)))
     = (Operation Plus (Reference ''a'') (Literal (Fin 3)), True)"
  using simplify_idempotent [of None
      "Operation Minus (Operation Plus (Reference ''a'') (Literal (Fin 5))) (Literal (Fin 2))"]
  by (simp add: merge_simps)

text \<open>
  C8. \<open>simplify\<close> never rolls dice. A \<open>Roll\<close> simplifies to itself, as the same object;
  the rolls of a simplified expression are the rolls of the expression, in the same
  order; and evaluating the simplified expression takes the same draws from the random
  source and records the same results as evaluating the expression, so no draw was taken
  or recorded by the simplification.
\<close>

theorem simplify_never_rolls:
  "simplify ctx (Roll k s m) = (Roll k s m, True) \<and>
   rolls_of (fst (simplify ctx e)) = rolls_of e \<and>
   snd (calc C rnd (fst (simplify ctx e)) st) = snd (calc C rnd e st)"
  by (simp add: rolls_of_simplify calc_state)

theorem simplify_never_rolls_witness:
  "rolls_of (fst (simplify None
      (Operation Plus (Operation Plus (Roll 2 20 (Some KeepHighest)) (Literal (Fin 1)))
         (Literal (Fin 2)))))
   = [Roll 2 20 (Some KeepHighest)]"
  using simplify_never_rolls [of None 0 0 None
      "Operation Plus (Operation Plus (Roll 2 20 (Some KeepHighest)) (Literal (Fin 1)))
         (Literal (Fin 2))" Map.empty "\<lambda>n. 0" "\<lparr>drawn = 0, sink = None\<rparr>"]
  by simp

section \<open>Claims about the left merge\<close>

text \<open>
  The rule of the specification for two different operators, in its own words: the
  operator of the literal of larger magnitude survives, with the difference or the
  quotient of the larger and the smaller magnitude.
\<close>

definition merge_by_magnitude ::
  "expression \<Rightarrow> operator \<Rightarrow> real \<Rightarrow> operator \<Rightarrow> real \<Rightarrow> expression" where
  "merge_by_magnitude farLeft leftOp a rightOp b =
     (if a = b then farLeft
      else (let (f, bigger, smaller) =
                  (if \<bar>a\<bar> > \<bar>b\<bar> then (leftOp, \<bar>a\<bar>, \<bar>b\<bar>) else (rightOp, \<bar>b\<bar>, \<bar>a\<bar>))
            in if f = Plus \<or> f = Minus
               then Operation f farLeft (Literal (Fin (bigger - smaller)))
               else Operation f farLeft (Literal (Fin (bigger / smaller)))))"

text \<open>
  C3, as stated, fails. The program compares the two literals as signed numbers
  (\<open>left > right\<close>), not their magnitudes: in \<open>a - -3 + -2\<close> the literal of larger
  magnitude is \<open>-3\<close>, under \<open>-\<close>, but the operator that survives is \<open>+\<close>, with the
  literal \<open>-2 - -3 = 1\<close>. The result \<open>a + 1\<close> has the value of the input, which the
  rule by magnitude, \<open>a - 1\<close>, has not.
\<close>

theorem mergeLeft_compares_signed_values:
  "parse ''a - -3 + -2'' =
     Inr (Operation Plus (Operation Minus (Reference ''a'') (Literal (Fin (- 3)))) (Literal (Fin (- 2)))) \<and>
   fst (simplify None
     (Operation Plus (Operation Minus (Reference ''a'') (Literal (Fin (- 3)))) (Literal (Fin (- 2)))))
     = Operation Plus (Reference ''a'') (Literal (Fin 1)) \<and>
   mergeLeft (Reference ''a'') Minus (Fin (- 3)) Plus (Fin (- 2))
     = Operation Plus (Reference ''a'') (Literal (Fin 1)) \<and>
   merge_by_magnitude (Reference ''a'') Minus (- 3) Plus (- 2)
     = Operation Minus (Reference ''a'') (Literal (Fin 1)) \<and>
   mergeLeft (Reference ''a'') Minus (Fin (- 3)) Plus (Fin (- 2))
     \<noteq> merge_by_magnitude (Reference ''a'') Minus (- 3) Plus (- 2)"
  by (simp add: lex_simps parse_simps merge_simps merge_by_magnitude_def)

text \<open>
  C3, amended. For two different operators of the same precedence, \<open>mergeLeft\<close> returns
  \<open>farLeft\<close> alone when the literals are equal (under \<open>===\<close>). When they differ, the
  additive operators keep the operator of the larger literal, compared as signed numbers,
  with the larger minus the smaller; the multiplicative operators on two positive literals
  keep the operator of the larger one with the larger divided by the smaller. So
  \<open>a + 5 - 5\<close> and \<open>a / 5 * 5\<close> simplify to \<open>a\<close>, and \<open>a + 5 - 2\<close> to \<open>a + 3\<close>.
\<close>

theorem mergeLeft_different_operators:
  assumes "f \<noteq> g" and "precedence f = precedence g"
  shows "(num_eq l r \<longrightarrow> mergeLeft farLeft f l g r = farLeft) \<and>
         (precedence f = 0 \<and> a \<noteq> b \<longrightarrow>
            mergeLeft farLeft f (Fin a) g (Fin b) =
              (if b < a then Operation f farLeft (Literal (Fin (a - b)))
               else Operation g farLeft (Literal (Fin (b - a))))) \<and>
         (precedence f = 1 \<and> 0 < a \<and> 0 < b \<and> a \<noteq> b \<longrightarrow>
            mergeLeft farLeft f (Fin a) g (Fin b) =
              (if b < a then Operation f farLeft (Literal (Fin (a / b)))
               else Operation g farLeft (Literal (Fin (b / a))))) \<and>
         map_sum id (\<lambda>e. fst (simplify None e)) (parse ''a + 5 - 5'') = parse ''a'' \<and>
         map_sum id (\<lambda>e. fst (simplify None e)) (parse ''a / 5 * 5'') = parse ''a'' \<and>
         map_sum id (\<lambda>e. fst (simplify None e)) (parse ''a + 5 - 2'') = parse ''a + 3''"
proof (intro conjI)
  show "num_eq l r \<longrightarrow> mergeLeft farLeft f l g r = farLeft"
    using assms by (simp add: mergeLeft_def)
  show "precedence f = 0 \<and> a \<noteq> b \<longrightarrow>
            mergeLeft farLeft f (Fin a) g (Fin b) =
              (if b < a then Operation f farLeft (Literal (Fin (a - b)))
               else Operation g farLeft (Literal (Fin (b - a))))"
    using assms by (cases f; cases g) (simp_all add: mergeLeft_def num_eq_def Let_def)
  show "precedence f = 1 \<and> 0 < a \<and> 0 < b \<and> a \<noteq> b \<longrightarrow>
            mergeLeft farLeft f (Fin a) g (Fin b) =
              (if b < a then Operation f farLeft (Literal (Fin (a / b)))
               else Operation g farLeft (Literal (Fin (b / a))))"
    using assms by (cases f; cases g) (simp_all add: mergeLeft_def num_eq_def Let_def)
  show "map_sum id (\<lambda>e. fst (simplify None e)) (parse ''a + 5 - 5'') = parse ''a''"
    by (simp add: lex_simps parse_simps merge_simps)
  show "map_sum id (\<lambda>e. fst (simplify None e)) (parse ''a / 5 * 5'') = parse ''a''"
    by (simp add: lex_simps parse_simps merge_simps)
  show "map_sum id (\<lambda>e. fst (simplify None e)) (parse ''a + 5 - 2'') = parse ''a + 3''"
    by (simp add: lex_simps parse_simps merge_simps)
qed

text \<open>The theorem at \<open>a + 3 - 4\<close> and at \<open>a / 2 * 8\<close>, where the right literal is the larger.\<close>

theorem mergeLeft_different_operators_witness:
  "mergeLeft (Reference ''a'') Plus (Fin 3) Minus (Fin 4)
     = Operation Minus (Reference ''a'') (Literal (Fin 1)) \<and>
   mergeLeft (Reference ''a'') Divide (Fin 2) Times (Fin 8)
     = Operation Times (Reference ''a'') (Literal (Fin 4))"
proof -
  have "Plus \<noteq> Minus" "precedence Plus = precedence Minus" by simp_all
  from mergeLeft_different_operators [OF this, of NaN NaN "Reference ''a''" 3 4]
  have 1: "mergeLeft (Reference ''a'') Plus (Fin 3) Minus (Fin 4)
     = Operation Minus (Reference ''a'') (Literal (Fin 1))" by simp
  have "Divide \<noteq> Times" "precedence Divide = precedence Times" by simp_all
  from mergeLeft_different_operators [OF this, of NaN NaN "Reference ''a''" 2 8]
  have 2: "mergeLeft (Reference ''a'') Divide (Fin 2) Times (Fin 8)
     = Operation Times (Reference ''a'') (Literal (Fin 4))" by simp
  from 1 2 show ?thesis by simp
qed

section \<open>Claims about the printer\<close>

text \<open>
  C4. Printing is claimed to round-trip: \<open>toString(parse(t))\<close> is \<open>t\<close> for every text \<open>t\<close>
  that \<open>toString\<close> prints. The program breaks this on the text \<open>-Infinity\<close>, which
  \<open>toString\<close> prints for the expression that \<open>-1 / 0\<close> simplifies to: \<open>parse\<close> reads the
  minus sign as an operator where an operand must stand and throws.
\<close>

theorem negative_infinity_is_not_parsed_back:
  "parse ''-1 / 0'' = Inr (Operation Divide (Literal (Fin (- 1))) (Literal (Fin 0))) \<and>
   fst (simplify None (Operation Divide (Literal (Fin (- 1))) (Literal (Fin 0)))) = Literal NInf \<and>
   toString digits (Literal NInf) = ''-Infinity'' \<and>
   parse ''-Infinity'' = Inl (Error ''Unexpected operator'')"
  by (simp add: lex_simps parse_simps numberToString_def)

section \<open>Claims about evaluation\<close>

text \<open>
  The faces of \<open>k\<close> dice of \<open>s\<close> sides rolled from draw \<open>n\<close> on, as integers, and a list
  of integers as numbers.
\<close>

definition die_faces :: "(nat \<Rightarrow> real) \<Rightarrow> nat \<Rightarrow> nat \<Rightarrow> nat \<Rightarrow> int list" where
  "die_faces rnd s n k = map (\<lambda>i. 1 + \<lfloor>rnd (n + i) * real s\<rfloor>) [0..<k]"

definition as_numbers :: "int list \<Rightarrow> number list" where
  "as_numbers ds = map (\<lambda>d. Fin (of_int d)) ds"

lemma roll_loop_map:
  "roll_loop rnd s n k = map (\<lambda>i. roll1 (rnd (n + i)) s) [0..<k]"
proof (induction k arbitrary: n)
  case (Suc k)
  have "map (\<lambda>i. roll1 (rnd (n + i)) s) [0..<Suc k] =
        roll1 (rnd n) s # map (\<lambda>i. roll1 (rnd (n + i)) s) (map Suc [0..<k])"
    by (simp only: upt_conv_Cons [of 0 "Suc k"] map_Suc_upt [symmetric]) simp
  then show ?case using Suc by (simp add: comp_def)
qed simp

lemma roll_loop_faces: "roll_loop rnd s n k = as_numbers (die_faces rnd s n k)"
  by (simp add: roll_loop_map as_numbers_def die_faces_def roll1_def comp_def)


lemma foldl_add_faces:
  "foldl num_add (Fin a) (as_numbers ds) = Fin (a + of_int (sum_list ds))"
  by (induction ds arbitrary: a) (simp_all add: as_numbers_def add.assoc)

lemma foldl_max_faces:
  "foldl num_max (Fin (of_int a)) (as_numbers ds) = Fin (of_int (fold max ds a))"
  by (induction ds arbitrary: a) (auto simp: as_numbers_def max_def)

lemma foldl_min_faces:
  "foldl num_min (Fin (of_int a)) (as_numbers ds) = Fin (of_int (fold min ds a))"
  by (induction ds arbitrary: a) (auto simp: as_numbers_def min_def)

lemma sum_faces: "roll_value None (as_numbers ds) = Fin (of_int (sum_list ds))"
  using foldl_add_faces [of 0 ds] by (simp add: roll_value_def reduce_sum_def)

lemma max_faces:
  "ds \<noteq> [] \<Longrightarrow> roll_value (Some KeepHighest) (as_numbers ds) = Fin (of_int (Max (set ds)))"
proof (cases ds)
  case (Cons d ds')
  have "foldl num_max NInf (as_numbers (d # ds')) = foldl num_max (Fin (of_int d)) (as_numbers ds')"
    by (simp add: as_numbers_def)
  then show ?thesis using Cons Max.set_eq_fold [of d ds']
    by (simp add: roll_value_def Math_max_def foldl_max_faces)
qed simp

lemma min_faces:
  "ds \<noteq> [] \<Longrightarrow> roll_value (Some KeepLowest) (as_numbers ds) = Fin (of_int (Min (set ds)))"
proof (cases ds)
  case (Cons d ds')
  have "foldl num_min PInf (as_numbers (d # ds')) = foldl num_min (Fin (of_int d)) (as_numbers ds')"
    by (simp add: as_numbers_def)
  then show ?thesis using Cons Min.set_eq_fold [of d ds']
    by (simp add: roll_value_def Math_min_def foldl_min_faces)
qed simp










section \<open>Claims about the lexer\<close>

text \<open>
  C9. Every name of letters, digits, \<open>_\<close>, \<open>$\<close> and \<open>.\<close> is claimed to be one Reference
  token. The class of the pattern that continues a symbol has the digits \<open>1-9\<close> only, so
  the name \<open>a0\<close> is split into the reference \<open>a\<close> and the literal \<open>0\<close>, and \<open>parse\<close>
  throws on the second token; \<open>a1\<close> is read as one name.
\<close>

theorem symbol_with_zero_is_split:
  "\<not> is_sym_char CHR ''0'' \<and>
   tokenize ''a0'' = [Yield (Operand (Reference ''a'')), Yield (Operand (Literal (Fin 0)))] \<and>
   parse ''a0'' = Inl (SyntaxError ''Unexpected token'') \<and>
   parse ''a1'' = Inr (Reference ''a1'')"
  by (simp add: lex_simps parse_simps)

lemma literal_value_negative:
  "\<exists>x. 0 \<le> x \<and> literal_value (CHR ''-'' # body) = Fin (- x)"
proof -
  define x where "x = real (digits_value (takeWhile is_digit body)) +
      real (digits_value (drop (Suc (length (takeWhile is_digit body))) body)) /
      10 ^ length (drop (Suc (length (takeWhile is_digit body))) body)"
  have "0 \<le> x" by (simp add: x_def)
  moreover have "literal_value (CHR ''-'' # body) = Fin (- x)"
    by (simp add: literal_value_def Let_def x_def)
  ultimately show ?thesis by blast
qed

lemma match_lit_minus_digit:
  assumes "is_digit d"
  shows "\<exists>body out. match_lit (CHR ''-'' # d # rest) = Some (CHR ''-'' # body, out)"
proof -
  define s1 where "s1 = dropWhile is_digit rest"
  show ?thesis
    using assms
    by (cases s1) (auto simp: match_lit_def Let_def s1_def [symmetric])
qed

lemma not_space_minus: "\<not> is_space CHR ''-''" by (simp add: is_space_def)
lemma not_sym_start_minus: "\<not> is_sym_start CHR ''-''" by (simp add: is_sym_start_def is_letter_def)
lemma not_digit_minus: "\<not> is_digit CHR ''-''" by (simp add: is_digit_def)

lemma next_token_minus_digit:
  assumes ws: "\<forall>c\<in>set ws. is_space c" and d: "is_digit d"
  shows "\<exists>x out. 0 \<le> x \<and>
           next_token (ws @ CHR ''-'' # d # rest) = Some (Operand (Literal (Fin (- x))), out)"
proof -
  from ws have skip: "dropWhile is_space (ws @ CHR ''-'' # d # rest) = CHR ''-'' # d # rest"
    by (simp add: dropWhile_append2 not_space_minus)
  from match_lit_minus_digit [OF d, of rest] obtain body out
    where m: "match_lit (CHR ''-'' # d # rest) = Some (CHR ''-'' # body, out)" by blast
  from literal_value_negative [of body] obtain x
    where x: "0 \<le> x" "literal_value (CHR ''-'' # body) = Fin (- x)" by blast
  have "next_token (ws @ CHR ''-'' # d # rest) = Some (Operand (Literal (Fin (- x))), out)"
    using skip m x
    by (simp add: next_token_def match_sym_def match_dice_def not_sym_start_minus not_digit_minus)
  with x show ?thesis by blast
qed

text \<open>
  C10. A minus sign directly before a digit starts a negative literal, whatever came
  before it: after optional white space the lexer yields a literal that is zero or
  negative, never the operator. So \<open>1-2\<close> and \<open>a-2\<close> are two operands in a row, on which
  \<open>parse\<close> throws its error for a token left over, while \<open>1 - 2\<close> is a subtraction.
\<close>

theorem minus_before_digit_is_literal:
  "(\<forall>ws d rest. (\<forall>c\<in>set ws. is_space c) \<and> is_digit d \<longrightarrow>
      (\<exists>x out. 0 \<le> x \<and>
         next_token (ws @ CHR ''-'' # d # rest) = Some (Operand (Literal (Fin (- x))), out))) \<and>
   parse ''1-2'' = Inl (SyntaxError ''Unexpected token'') \<and>
   parse ''a-2'' = Inl (SyntaxError ''Unexpected token'') \<and>
   parse ''1 - 2'' = Inr (Operation Minus (Literal (Fin 1)) (Literal (Fin 2)))"
proof (intro conjI allI impI)
  fix ws d rest
  assume "(\<forall>c\<in>set ws. is_space c) \<and> is_digit d"
  then show "\<exists>x out. 0 \<le> x \<and>
         next_token (ws @ CHR ''-'' # d # rest) = Some (Operand (Literal (Fin (- x))), out)"
    using next_token_minus_digit by blast
next
  show "parse ''1-2'' = Inl (SyntaxError ''Unexpected token'')"
    by (simp add: lex_simps parse_simps)
  show "parse ''a-2'' = Inl (SyntaxError ''Unexpected token'')"
    by (simp add: lex_simps parse_simps)
  show "parse ''1 - 2'' = Inr (Operation Minus (Literal (Fin 1)) (Literal (Fin 2)))"
    by (simp add: lex_simps parse_simps)
qed

theorem minus_before_digit_is_literal_witness:
  "next_token '' -2'' = Some (Operand (Literal (Fin (- 2))), '''') \<and>
   tokenize ''1-2'' = [Yield (Operand (Literal (Fin 1))), Yield (Operand (Literal (Fin (- 2))))]"
proof -
  have a: "(\<forall>c\<in>set '' ''. is_space c) \<and> is_digit CHR ''2''"
    by (simp add: is_space_def is_digit_def)
  from minus_before_digit_is_literal a
  have "\<exists>x out. 0 \<le> x \<and> next_token ('' '' @ CHR ''-'' # CHR ''2'' # '''')
          = Some (Operand (Literal (Fin (- x))), out)"
    by blast
  then show ?thesis by (simp add: lex_simps)
qed

section \<open>Claims about the parser\<close>

text \<open>
  Direct evaluation, as the specification has it: the value of a sequence of tokens under
  the grammar \<open>expr: term | expr "+" term | expr "-" term\<close>,
  \<open>term: factor | term "*" factor | term "/" factor\<close>,
  \<open>factor: SYMBOL | LITERAL | "(" expr ")"\<close>, which makes \<open>*\<close> and \<open>/\<close> bind tighter than
  \<open>+\<close> and \<open>-\<close>, every operator associate to the left, and parentheses group. A variable
  has the value the context gives it; there is no rule for a roll or for a variable that
  the context lacks.
\<close>

inductive expr_value :: "context \<Rightarrow> token list \<Rightarrow> number \<Rightarrow> bool"
  and term_value :: "context \<Rightarrow> token list \<Rightarrow> number \<Rightarrow> bool"
  and factor_value :: "context \<Rightarrow> token list \<Rightarrow> number \<Rightarrow> bool"
  for C :: "context"
where
  literal: "factor_value C [Operand (Literal v)] v"
| variable: "C x = Some v \<Longrightarrow> factor_value C [Operand (Reference x)] v"
| group: "expr_value C ts v \<Longrightarrow> factor_value C (Punct LParen # ts @ [Punct RParen]) v"
| single_factor: "factor_value C ts v \<Longrightarrow> term_value C ts v"
| times: "term_value C ts a \<Longrightarrow> factor_value C us b \<Longrightarrow>
          term_value C (ts @ Punct (Op Times) # us) (num_mul a b)"
| divide: "term_value C ts a \<Longrightarrow> factor_value C us b \<Longrightarrow>
          term_value C (ts @ Punct (Op Divide) # us) (num_div a b)"
| single_term: "term_value C ts v \<Longrightarrow> expr_value C ts v"
| plus: "expr_value C ts a \<Longrightarrow> term_value C us b \<Longrightarrow>
          expr_value C (ts @ Punct (Op Plus) # us) (num_add a b)"
| minus: "expr_value C ts a \<Longrightarrow> term_value C us b \<Longrightarrow>
          expr_value C (ts @ Punct (Op Minus) # us) (num_sub a b)"

text \<open>The loop of a level stops at once on these events.\<close>

fun stops :: "level \<Rightarrow> event list \<Rightarrow> bool" where
  "stops lvl [] = True"
| "stops lvl (Yield (Punct (Op f)) # es) = (\<not> accepts lvl f)"
| "stops lvl (Yield t # es) = True"
| "stops lvl (Throw # es) = False"

lemma opLoop_stops: "stops lvl es \<Longrightarrow> opLoop lvl l es = Inr (l, es)"
  by (cases "(lvl, es)" rule: stops.cases) (simp_all add: opLoop.simps)

lemma opLoop_step:
  "accepts lvl f \<Longrightarrow>
   opLoop lvl l (Yield (Punct (Op f)) # es) =
     (case (case lvl of ExprLevel \<Rightarrow> opParser TermLevel es | TermLevel \<Rightarrow> parseFactor es) of
        Inl err \<Rightarrow> Inl err
      | Inr (r, rest') \<Rightarrow> opLoop lvl (Operation f l r) rest')"
  by (subst opLoop.simps) simp

text \<open>The value of an expression that no draw and no state can change.\<close>

definition evaluates_to :: "context \<Rightarrow> expression \<Rightarrow> number \<Rightarrow> bool" where
  "evaluates_to C e v = (\<forall>rnd st. fst (calc C rnd e st) = v)"

lemma evaluates_to_Operation:
  "evaluates_to C l a \<Longrightarrow> evaluates_to C r b \<Longrightarrow> evaluates_to C (Operation f l r) (doOp f a b)"
  unfolding evaluates_to_def
proof (intro allI)
  fix rnd st
  assume l: "\<forall>rnd st. fst (calc C rnd l st) = a" and r: "\<forall>rnd st. fst (calc C rnd r st) = b"
  obtain x st1 where 1: "calc C rnd l st = (x, st1)" by fastforce
  obtain y st2 where 2: "calc C rnd r st1 = (y, st2)" by fastforce
  from l 1 have "x = a" by (metis fst_conv)
  moreover from r 2 have "y = b" by (metis fst_conv)
  ultimately show "fst (calc C rnd (Operation f l r) st) = doOp f a b" using 1 2 by simp
qed

text \<open>An expression without rolls whose variables are all in the context.\<close>

fun closed_in :: "context \<Rightarrow> expression \<Rightarrow> bool" where
  "closed_in C (Literal v) = True"
| "closed_in C (Reference x) = (C x \<noteq> None)"
| "closed_in C (Roll k s m) = False"
| "closed_in C (Operation f l r) = (closed_in C l \<and> closed_in C r)"



text \<open>The nonterminal that a level parses.\<close>

fun level_value :: "level \<Rightarrow> context \<Rightarrow> token list \<Rightarrow> number \<Rightarrow> bool" where
  "level_value ExprLevel = expr_value"
| "level_value TermLevel = term_value"

lemma closed_value: "closed_in C e \<Longrightarrow> \<exists>v. evaluates_to C e v"
proof (induction e)
  case (Operation f l r)
  then obtain a b where "evaluates_to C l a" "evaluates_to C r b" by auto
  then show ?case using evaluates_to_Operation by blast
qed (auto simp: evaluates_to_def)

lemma evaluates_to_unique: "evaluates_to C e v \<Longrightarrow> evaluates_to C e w \<Longrightarrow> v = w"
  by (auto simp: evaluates_to_def)

lemma evaluates_to_OperationD:
  assumes "evaluates_to C (Operation f l r) v" "closed_in C l" "closed_in C r"
  shows "\<exists>a b. evaluates_to C l a \<and> evaluates_to C r b \<and> v = doOp f a b"
proof -
  from assms(2,3) closed_value obtain a b where ab: "evaluates_to C l a" "evaluates_to C r b" by blast
  then have "evaluates_to C (Operation f l r) (doOp f a b)" by (rule evaluates_to_Operation)
  with assms(1) have "v = doOp f a b" by (rule evaluates_to_unique)
  with ab show ?thesis by blast
qed

lemma level_step:
  assumes "accepts lvl f" "level_value lvl C ts a"
    and "(case lvl of ExprLevel \<Rightarrow> term_value C us b | TermLevel \<Rightarrow> factor_value C us b)"
  shows "level_value lvl C (ts @ Punct (Op f) # us) (doOp f a b)"
  using assms
  by (cases lvl; cases f) (auto intro: expr_value_term_value_factor_value.intros)

lemma level_base:
  "(case lvl of ExprLevel \<Rightarrow> term_value C ts v | TermLevel \<Rightarrow> factor_value C ts v) \<Longrightarrow>
   level_value lvl C ts v"
  by (cases lvl) (auto intro: expr_value_term_value_factor_value.intros)

text \<open>The operands that the tokenizer yields are references, rolls and literals.\<close>

definition lexed :: "event list \<Rightarrow> bool" where
  "lexed es = (\<forall>x. Yield (Operand x) \<in> set es \<longrightarrow> \<not> is_Operation x)"

lemma lexed_Cons: "lexed (ev # es) \<Longrightarrow> lexed es"
  by (simp add: lexed_def)

lemma lexed_append: "lexed (xs @ ys) \<Longrightarrow> lexed ys"
  by (simp add: lexed_def)

lemma parsed_grammar:
  "parseFactor es = Inr (e, rest) \<Longrightarrow> lexed es \<Longrightarrow>
     \<exists>ts. es = map Yield ts @ rest \<and>
          (closed_in C e \<longrightarrow> (\<forall>v. evaluates_to C e v \<longrightarrow> factor_value C ts v))"
  "opParser lvl es = Inr (e, rest) \<Longrightarrow> lexed es \<Longrightarrow>
     \<exists>ts. es = map Yield ts @ rest \<and>
          (closed_in C e \<longrightarrow> (\<forall>v. evaluates_to C e v \<longrightarrow> level_value lvl C ts v))"
  "opLoop lvl l es = Inr (e, rest) \<Longrightarrow> lexed es \<Longrightarrow>
     \<exists>ts. es = map Yield ts @ rest \<and>
          (closed_in C e \<longrightarrow> closed_in C l \<and>
             (\<forall>ts0 a v. evaluates_to C l a \<and> level_value lvl C ts0 a \<and> evaluates_to C e v \<longrightarrow>
                 level_value lvl C (ts0 @ ts) v))"
proof (induction es and lvl es and lvl l es arbitrary: e rest and e rest and e rest
       rule: parseFactor_opParser_opLoop.induct)
  case (1 es)
  show ?case
  proof (cases es)
    case Nil
    with "1.prems" show ?thesis by (simp add: parseFactor.simps)
  next
    case (Cons ev es')
    show ?thesis
    proof (cases ev)
      case Throw
      with Cons "1.prems" show ?thesis by (simp add: parseFactor.simps)
    next
      case (Yield t)
      show ?thesis
      proof (cases t)
        case (Operand x)
        with Cons Yield "1.prems" have eq: "e = x" "rest = es'" by (simp_all add: parseFactor.simps)
        from "1.prems"(2) Cons Yield Operand have atom: "\<not> is_Operation x" by (simp add: lexed_def)
        have "es = map Yield [Operand x] @ rest" using Cons Yield Operand eq by simp
        moreover have "closed_in C e \<longrightarrow> (\<forall>v. evaluates_to C e v \<longrightarrow> factor_value C [Operand x] v)"
          using eq atom
          by (cases x) (auto simp: evaluates_to_def intro: expr_value_term_value_factor_value.intros)
        ultimately show ?thesis by blast
      next
        case (Punct p)
        show ?thesis
        proof (cases p)
          case LParen
          from "1.prems" Cons Yield Punct LParen have
            inner: "opParser ExprLevel es' = Inr (e, Yield (Punct RParen) # rest)"
            by (auto simp: parseFactor.simps
                split: sum.splits list.splits event.splits token.splits punctuation.splits)
          from "1.prems"(2) Cons have "lexed es'" by (auto dest: lexed_Cons)
          from "1.IH" [OF Cons Yield Punct LParen inner this] obtain ts where
            ts: "es' = map Yield ts @ Yield (Punct RParen) # rest"
            and g: "closed_in C e \<longrightarrow> (\<forall>v. evaluates_to C e v \<longrightarrow> level_value ExprLevel C ts v)"
            by blast
          have "es = map Yield (Punct LParen # ts @ [Punct RParen]) @ rest"
            using Cons Yield Punct LParen ts by simp
          moreover have "closed_in C e \<longrightarrow>
              (\<forall>v. evaluates_to C e v \<longrightarrow> factor_value C (Punct LParen # ts @ [Punct RParen]) v)"
            using g by (auto intro: group)
          ultimately show ?thesis by blast
        qed (use "1.prems" Cons Yield Punct in \<open>simp_all add: parseFactor.simps\<close>)
      qed
    qed
  qed
next
  case (2 lvl es)
  from "2.prems"(1) obtain l mid where
    first: "(case lvl of ExprLevel \<Rightarrow> opParser TermLevel es | TermLevel \<Rightarrow> parseFactor es) = Inr (l, mid)"
    and loop: "opLoop lvl l mid = Inr (e, rest)"
    by (subst (asm) opParser.simps) (auto split: sum.splits)
  have "\<exists>ts1. es = map Yield ts1 @ mid \<and>
          (closed_in C l \<longrightarrow> (\<forall>v. evaluates_to C l v \<longrightarrow>
             (case lvl of ExprLevel \<Rightarrow> term_value C ts1 v | TermLevel \<Rightarrow> factor_value C ts1 v)))"
  proof (cases lvl)
    case ExprLevel
    with first have "opParser TermLevel es = Inr (l, mid)" by simp
    from "2.IH"(1) [OF ExprLevel this "2.prems"(2)] ExprLevel show ?thesis by simp
  next
    case TermLevel
    with first have "parseFactor es = Inr (l, mid)" by simp
    from "2.IH"(2) [OF TermLevel this "2.prems"(2)] TermLevel show ?thesis by simp
  qed
  then obtain ts1 where ts1: "es = map Yield ts1 @ mid"
    and g1: "closed_in C l \<longrightarrow> (\<forall>v. evaluates_to C l v \<longrightarrow>
             (case lvl of ExprLevel \<Rightarrow> term_value C ts1 v | TermLevel \<Rightarrow> factor_value C ts1 v))"
    by blast
  from "2.prems"(2) ts1 have "lexed mid" by (auto dest: lexed_append)
  from "2.IH"(3) [OF first refl loop this] obtain ts2 where
    ts2: "mid = map Yield ts2 @ rest"
    and g2: "closed_in C e \<longrightarrow> closed_in C l \<and>
             (\<forall>ts0 a v. evaluates_to C l a \<and> level_value lvl C ts0 a \<and> evaluates_to C e v \<longrightarrow>
                 level_value lvl C (ts0 @ ts2) v)" by blast
  have "es = map Yield (ts1 @ ts2) @ rest" using ts1 ts2 by simp
  moreover have "closed_in C e \<longrightarrow> (\<forall>v. evaluates_to C e v \<longrightarrow> level_value lvl C (ts1 @ ts2) v)"
  proof (intro impI allI)
    fix v assume c: "closed_in C e" and v: "evaluates_to C e v"
    from g2 c have cl: "closed_in C l" by blast
    then obtain a where a: "evaluates_to C l a" using closed_value by blast
    with g1 cl have "level_value lvl C ts1 a" using level_base by blast
    with g2 c a v show "level_value lvl C (ts1 @ ts2) v" by blast
  qed
  ultimately show ?case by blast
next
  case (3 lvl l es)
  show ?case
  proof (cases "\<exists>f es'. es = Yield (Punct (Op f)) # es' \<and> accepts lvl f")
    case False
    then have st: "stops lvl es \<or> (\<exists>es'. es = Throw # es')"
      by (cases "(lvl, es)" rule: stops.cases) auto
    have eq: "e = l \<and> rest = es"
    proof (rule disjE [OF st])
      assume "stops lvl es"
      then have "opLoop lvl l es = Inr (l, es)" by (rule opLoop_stops)
      with "3.prems"(1) show ?thesis by simp
    next
      assume "\<exists>es'. es = Throw # es'"
      then obtain es' where "es = Throw # es'" by blast
      then have "opLoop lvl l es = Inl (SyntaxError ''Unexpected input'')"
        by (simp add: opLoop.simps)
      with "3.prems"(1) show ?thesis by simp
    qed
    have "es = map Yield [] @ rest" using eq by simp
    moreover have "closed_in C e \<longrightarrow> closed_in C l \<and>
             (\<forall>ts0 a v. evaluates_to C l a \<and> level_value lvl C ts0 a \<and> evaluates_to C e v \<longrightarrow>
                 level_value lvl C (ts0 @ []) v)"
      using eq by (auto dest: evaluates_to_unique)
    ultimately show ?thesis by blast
  next
    case True
    then obtain f es' where es: "es = Yield (Punct (Op f)) # es'" and acc: "accepts lvl f" by blast
    from "3.prems"(1) es acc obtain r mid where
      nxt: "(case lvl of ExprLevel \<Rightarrow> opParser TermLevel es' | TermLevel \<Rightarrow> parseFactor es') = Inr (r, mid)"
      and loop: "opLoop lvl (Operation f l r) mid = Inr (e, rest)"
      by (auto simp: opLoop_step split: sum.splits)
    from "3.prems"(2) es have lx: "lexed es'" by (auto dest: lexed_Cons)
    have "\<exists>ts1. es' = map Yield ts1 @ mid \<and>
          (closed_in C r \<longrightarrow> (\<forall>v. evaluates_to C r v \<longrightarrow>
             (case lvl of ExprLevel \<Rightarrow> term_value C ts1 v | TermLevel \<Rightarrow> factor_value C ts1 v)))"
    proof (cases lvl)
      case ExprLevel
      with nxt have "opParser TermLevel es' = Inr (r, mid)" by simp
      from "3.IH"(1) [OF es refl refl refl acc ExprLevel this lx] ExprLevel show ?thesis by simp
    next
      case TermLevel
      with nxt have "parseFactor es' = Inr (r, mid)" by simp
      from "3.IH"(2) [OF es refl refl refl acc TermLevel this lx] TermLevel show ?thesis by simp
    qed
    then obtain ts1 where ts1: "es' = map Yield ts1 @ mid"
      and g1: "closed_in C r \<longrightarrow> (\<forall>v. evaluates_to C r v \<longrightarrow>
             (case lvl of ExprLevel \<Rightarrow> term_value C ts1 v | TermLevel \<Rightarrow> factor_value C ts1 v))"
      by blast
    from lx ts1 have "lexed mid" by (auto dest: lexed_append)
    from "3.IH"(3) [OF es refl refl refl acc nxt refl loop this] obtain ts2 where
      ts2: "mid = map Yield ts2 @ rest"
      and g2: "closed_in C e \<longrightarrow> closed_in C (Operation f l r) \<and>
             (\<forall>ts0 a v. evaluates_to C (Operation f l r) a \<and> level_value lvl C ts0 a \<and>
                  evaluates_to C e v \<longrightarrow> level_value lvl C (ts0 @ ts2) v)" by blast
    have "es = map Yield (Punct (Op f) # ts1 @ ts2) @ rest" using es ts1 ts2 by simp
    moreover have "closed_in C e \<longrightarrow> closed_in C l \<and>
             (\<forall>ts0 a v. evaluates_to C l a \<and> level_value lvl C ts0 a \<and> evaluates_to C e v \<longrightarrow>
                 level_value lvl C (ts0 @ Punct (Op f) # ts1 @ ts2) v)"
    proof (intro impI conjI allI)
      assume c: "closed_in C e"
      with g2 show "closed_in C l" by simp
    next
      fix ts0 a v
      assume c: "closed_in C e"
        and h: "evaluates_to C l a \<and> level_value lvl C ts0 a \<and> evaluates_to C e v"
      from g2 c have cr: "closed_in C r" by simp
      then obtain b where b: "evaluates_to C r b" using closed_value by blast
      with g1 cr have "case lvl of ExprLevel \<Rightarrow> term_value C ts1 b | TermLevel \<Rightarrow> factor_value C ts1 b"
        by blast
      with acc h have "level_value lvl C (ts0 @ Punct (Op f) # ts1) (doOp f a b)"
        by (intro level_step) auto
      moreover from h b have "evaluates_to C (Operation f l r) (doOp f a b)"
        by (intro evaluates_to_Operation) auto
      ultimately have "level_value lvl C ((ts0 @ Punct (Op f) # ts1) @ ts2) v"
        using g2 c h by blast
      then show "level_value lvl C (ts0 @ Punct (Op f) # ts1 @ ts2) v" by simp
    qed
    ultimately show ?thesis by blast
  qed
qed

lemma next_token_atom:
  "next_token s = Some (Operand x, rest) \<Longrightarrow> \<not> is_Operation x"
  by (auto simp: next_token_def Let_def split: option.splits prod.splits)

lemma lexed_tokenize: "lexed (tokenize s)"
proof (induction s rule: tokenize.induct)
  case (1 s)
  show ?case
  proof (cases "s = []")
    case True
    then show ?thesis by (simp add: tokenize.simps lexed_def)
  next
    case False
    show ?thesis
    proof (cases "next_token s")
      case None
      with False show ?thesis by (simp add: tokenize.simps lexed_def)
    next
      case (Some a)
      obtain t rest where a: "a = (t, rest)" by (cases a)
      from "1.IH" [OF False Some a [symmetric]] have "lexed (tokenize rest)" by simp
      moreover have "tokenize s = Yield t # tokenize rest"
        using False Some a by (subst tokenize.simps) simp
      moreover have "\<not> is_Operation x" if "t = Operand x" for x
        using Some a that next_token_atom by blast
      ultimately show ?thesis by (auto simp: lexed_def)
    qed
  qed
qed



text \<open>
  Conversely, whatever \<open>parse\<close> accepts is a sequence of tokens of the grammar, with the
  value that \<open>calc\<close> computes: the grammar leaves out no text that the parser reads.
\<close>

lemma parse_within_grammar:
  assumes "parse s = Inr e" and "closed_in C e"
  shows "\<exists>ts. tokenize (trim s) = map Yield ts \<and> expr_value C ts (fst (calc C rnd e st))"
proof -
  from assms(1) have p: "opParser ExprLevel (tokenize (trim s)) = Inr (e, [])"
    by (auto simp: parse_def parseExpr_def
        split: sum.splits list.splits event.splits prod.splits)
  from parsed_grammar(2) [OF p lexed_tokenize, of C] obtain ts where
    ts: "tokenize (trim s) = map Yield ts"
    and g: "closed_in C e \<longrightarrow> (\<forall>v. evaluates_to C e v \<longrightarrow> expr_value C ts v)" by auto
  from assms(2) closed_value obtain v where v: "evaluates_to C e v" by blast
  then have "fst (calc C rnd e st) = v" by (simp add: evaluates_to_def)
  with g assms(2) v ts show ?thesis by auto
qed

section \<open>Simplification and the value of an expression\<close>

text \<open>
  Where every intermediate value of an evaluation is a finite number, simplification
  keeps the value. An expression is \<open>tame\<close> for a context, a source and a state when its
  literals and the values its names have in the context are finite, each roll with a
  modifier has a die, and the right operand of every \<open>*\<close> and \<open>/\<close> evaluates to a number
  other than zero.
\<close>

fun is_finite :: "number \<Rightarrow> bool" where
  "is_finite (Fin x) = True"
| "is_finite v = False"

fun tame :: "context \<Rightarrow> (nat \<Rightarrow> real) \<Rightarrow> expression \<Rightarrow> calc_state \<Rightarrow> bool" where
  "tame C rnd (Literal v) st = is_finite v"
| "tame C rnd (Reference x) st = (case C x of None \<Rightarrow> True | Some v \<Rightarrow> is_finite v)"
| "tame C rnd (Roll k s m) st = (m = None \<or> 0 < k)"
| "tame C rnd (Operation f l r) st =
     (tame C rnd l st \<and> tame C rnd r (snd (calc C rnd l st)) \<and>
      (precedence f = 1 \<longrightarrow> fst (calc C rnd r (snd (calc C rnd l st))) \<noteq> Fin 0))"

lemma is_finite_iff: "is_finite v \<longleftrightarrow> (\<exists>x. v = Fin x)"
  by (cases v) auto

lemma calc_Operation:
  "calc C rnd (Operation f l r) st =
     (doOp f (fst (calc C rnd l st)) (fst (calc C rnd r (snd (calc C rnd l st)))),
      snd (calc C rnd r (snd (calc C rnd l st))))"
  by (simp add: Let_def split: prod.splits)

lemma roll_value_finite:
  "m = None \<or> ds \<noteq> [] \<Longrightarrow> is_finite (roll_value m (as_numbers ds))"
proof (cases m)
  case None
  then show ?thesis by (simp add: sum_faces)
next
  case (Some h)
  assume "m = None \<or> ds \<noteq> []"
  with Some have "ds \<noteq> []" by simp
  then show ?thesis using Some by (cases h) (simp_all add: max_faces min_faces)
qed

lemma tame_finite: "tame C rnd e st \<Longrightarrow> is_finite (fst (calc C rnd e st))"
proof (induction e arbitrary: st)
  case (Roll k s m)
  then have "m = None \<or> die_faces rnd s (drawn st) k \<noteq> []" by (auto simp: die_faces_def)
  then show ?case by (simp add: Let_def roll_loop_faces roll_value_finite)
next
  case (Operation f l r)
  from Operation.prems have tl: "tame C rnd l st"
    and tr: "tame C rnd r (snd (calc C rnd l st))" by simp_all
  from Operation.IH(1) [OF tl] obtain x where x: "fst (calc C rnd l st) = Fin x"
    by (auto simp: is_finite_iff)
  from Operation.IH(2) [OF tr] obtain y where y: "fst (calc C rnd r (snd (calc C rnd l st))) = Fin y"
    by (auto simp: is_finite_iff)
  from Operation.prems y have "precedence f = 1 \<longrightarrow> y \<noteq> 0" by simp
  then show ?case by (cases f) (simp_all add: calc_Operation x y del: calc.simps(4))
qed (auto split: option.splits)

text \<open>
  The left merge on finite literals, nonzero under \<open>*\<close> and \<open>/\<close>, has the value of the
  chain it replaces.
\<close>

lemma mergeLeft_tame:
  assumes prec: "precedence g = precedence f"
    and F: "tame C rnd F st" and x: "fst (calc C rnd F st) = Fin x"
    and nz: "precedence f = 1 \<longrightarrow> p \<noteq> 0 \<and> q \<noteq> 0"
  shows "tame C rnd (mergeLeft F g (Fin p) f (Fin q)) st \<and>
         fst (calc C rnd (mergeLeft F g (Fin p) f (Fin q)) st)
           = doOp f (doOp g (Fin x) (Fin p)) (Fin q)"
  using assms
  by (cases g; cases f)
     (auto simp: mergeLeft_def num_eq_def Let_def calc_Operation field_simps
           simp del: calc.simps(4))

lemma simplify_Literal_cases:
  "is_Literal e \<Longrightarrow> \<exists>v. e = Literal v"
  by (cases e) auto

lemma simplify_state: "snd (calc C rnd (fst (simplify ctx e)) st) = snd (calc C rnd e st)"
  by (simp add: calc_state rolls_of_simplify)

text \<open>
  \<open>simplify\<close>, without a context or with the context of the evaluation, keeps a tame
  expression tame and keeps its value, the rolls being resolved by the same draws.
\<close>

lemma simplify_preserves_tame_value:
  assumes ctx: "ctx = None \<or> ctx = Some C"
  shows "tame C rnd e st \<Longrightarrow>
     tame C rnd (fst (simplify ctx e)) st \<and>
     fst (calc C rnd (fst (simplify ctx e)) st) = fst (calc C rnd e st)"
proof (induction e arbitrary: st)
  case (Literal v)
  then show ?case by simp
next
  case (Reference x)
  then show ?case using ctx by (auto simp: lookup_def split: option.splits)
next
  case (Roll k s m)
  then show ?case by simp
next
  case (Operation f l r)
  let ?st1 = "snd (calc C rnd l st)"
  obtain l' sl where l: "simplify ctx l = (l', sl)" by fastforce
  obtain r' sr where r: "simplify ctx r = (r', sr)" by fastforce
  from Operation.prems have tl: "tame C rnd l st" and tr: "tame C rnd r ?st1"
    and nz: "precedence f = 1 \<longrightarrow> fst (calc C rnd r ?st1) \<noteq> Fin 0" by simp_all
  from Operation.IH(1) [OF tl] l have tl': "tame C rnd l' st"
    and vl: "fst (calc C rnd l' st) = fst (calc C rnd l st)" by simp_all
  from Operation.IH(2) [OF tr] r have tr': "tame C rnd r' ?st1"
    and vr: "fst (calc C rnd r' ?st1) = fst (calc C rnd r ?st1)" by simp_all
  from simplify_state [of C rnd ctx l st] l
  have sl': "snd (calc C rnd l' st) = ?st1" by simp
  show ?case
  proof (cases "is_Literal l' \<and> is_Literal r'")
    case True
    then obtain a b where ab: "l' = Literal a" "r' = Literal b"
      using simplify_Literal_cases by blast
    from tl' tr' ab obtain p q where pq: "a = Fin p" "b = Fin q"
      by (auto simp: is_finite_iff)
    from vl vr ab have v: "fst (calc C rnd l st) = a" "fst (calc C rnd r ?st1) = b" by simp_all
    from nz v pq have "precedence f = 1 \<longrightarrow> q \<noteq> 0" by simp
    then have "is_finite (doOp f a b)" using pq by (cases f) simp_all
    then show ?thesis using l r ab v by (simp add: calc_Operation del: calc.simps(4))
  next
    case False
    show ?thesis
    proof (cases "is_Literal r' \<and> is_Operation l' \<and> precedence (op l') = precedence f
                  \<and> is_Literal (right l')")
      case True
      then obtain g F a b where l': "l' = Operation g F (Literal a)" and r': "r' = Literal b"
        and prec: "precedence g = precedence f"
        by (cases l'; cases "right l'"; cases r') auto
      from tl' l' have tF: "tame C rnd F st" and fa: "is_finite a"
        and nza: "precedence g = 1 \<longrightarrow> a \<noteq> Fin 0" by simp_all
      from tame_finite [OF tF] obtain x where x: "fst (calc C rnd F st) = Fin x"
        by (auto simp: is_finite_iff)
      from fa obtain p where p: "a = Fin p" by (auto simp: is_finite_iff)
      from tr' r' obtain q where q: "b = Fin q" by (auto simp: is_finite_iff)
      from vr r' have vb: "fst (calc C rnd r ?st1) = b" by simp
      from nz vb q nza p prec have "precedence f = 1 \<longrightarrow> p \<noteq> 0 \<and> q \<noteq> 0" by simp
      from mergeLeft_tame [OF prec tF x this]
      have m: "tame C rnd (mergeLeft F g (Fin p) f (Fin q)) st"
        and mv: "fst (calc C rnd (mergeLeft F g (Fin p) f (Fin q)) st)
                  = doOp f (doOp g (Fin x) (Fin p)) (Fin q)" by simp_all
      from vl l' x p have "fst (calc C rnd l st) = doOp g (Fin x) (Fin p)"
        by (simp add: calc_Operation del: calc.simps(4))
      with vb q have "fst (calc C rnd (Operation f l r) st) = doOp f (doOp g (Fin x) (Fin p)) (Fin q)"
        by (simp add: calc_Operation del: calc.simps(4))
      with m mv show ?thesis using l r True False l' r' p q
        by (simp del: calc.simps(4))
    next
      case unmerged: False
      have "tame C rnd (Operation f l' r') st"
        using tl' tr' nz vr sl' by simp
      moreover have "fst (calc C rnd (Operation f l' r') st) = fst (calc C rnd (Operation f l r) st)"
        using vl vr sl' by (simp add: calc_Operation del: calc.simps(4))
      moreover have "fst (simplify ctx (Operation f l r)) = Operation f l' r'"
        using l r False unmerged simplify_same [of ctx l l'] simplify_same [of ctx r r']
        by (cases sl; cases sr) auto
      ultimately show ?thesis by (simp del: calc.simps(4) tame.simps(4))
    qed
  qed
qed

section \<open>Parsing the printer's output\<close>

text \<open>
  The tokens of the text that \<open>toString\<close> prints: an operand is one token, and the
  parentheses stand where \<open>Operation.toString\<close> writes them.
\<close>

fun tokens_of :: "expression \<Rightarrow> token list" where
  "tokens_of (Operation f l r) =
     (if is_Operation l \<and> precedence f > precedence (op l)
      then Punct LParen # tokens_of l @ [Punct RParen]
      else tokens_of l)
     @ Punct (Op f) #
     (if is_Operation r \<and> precedence f \<ge> precedence (op r)
      then Punct LParen # tokens_of r @ [Punct RParen]
      else tokens_of r)"
| "tokens_of (Literal v) = [Operand (Literal v)]"
| "tokens_of (Reference x) = [Operand (Reference x)]"
| "tokens_of (Roll k s m) = [Operand (Roll k s m)]"

lemma parseFactor_Operand: "parseFactor (Yield (Operand e) # es) = Inr (e, es)"
  by (simp add: parseFactor.simps)

lemma parseFactor_group:
  "opParser ExprLevel es = Inr (e, Yield (Punct RParen) # rest) \<Longrightarrow>
   parseFactor (Yield (Punct LParen) # es) = Inr (e, rest)"
  by (simp add: parseFactor.simps)

lemma opParser_Term: "opParser TermLevel es =
    (case parseFactor es of Inl err \<Rightarrow> Inl err | Inr (l, rest) \<Rightarrow> opLoop TermLevel l rest)"
  by (subst opParser.simps) simp

lemma opParser_Expr: "opParser ExprLevel es =
    (case opParser TermLevel es of Inl err \<Rightarrow> Inl err | Inr (l, rest) \<Rightarrow> opLoop ExprLevel l rest)"
  by (subst opParser.simps) simp

lemma precedence_cases: "precedence f = 0 \<or> precedence f = 1"
  by (cases f) auto

text \<open>
  The parser reads the tokens of an expression back as that expression: at the level of
  expressions before anything that ends a term, at the level of terms unless the
  expression is a sum or a difference, and as a factor when it is an operand.
\<close>

lemma tokens_parsed:
  "(\<forall>rest. stops TermLevel rest \<longrightarrow>
       opParser ExprLevel (map Yield (tokens_of e) @ rest) = opLoop ExprLevel e rest) \<and>
   (\<not> (is_Operation e \<and> precedence (op e) = 0) \<longrightarrow>
       (\<forall>rest. opParser TermLevel (map Yield (tokens_of e) @ rest) = opLoop TermLevel e rest)) \<and>
   (\<not> is_Operation e \<longrightarrow>
       (\<forall>rest. parseFactor (map Yield (tokens_of e) @ rest) = Inr (e, rest)))"
proof (induction e)
  case (Literal v)
  show ?case by (simp add: opParser_Expr opParser_Term parseFactor_Operand opLoop_stops)
next
  case (Reference x)
  show ?case by (simp add: opParser_Expr opParser_Term parseFactor_Operand opLoop_stops)
next
  case (Roll k s m)
  show ?case by (simp add: opParser_Expr opParser_Term parseFactor_Operand opLoop_stops)
next
  case (Operation f l r)
  note El = Operation.IH(1) [THEN conjunct1, rule_format]
  note Tl = Operation.IH(1) [THEN conjunct2, THEN conjunct1, rule_format]
  note Er = Operation.IH(2) [THEN conjunct1, rule_format]
  note Tr = Operation.IH(2) [THEN conjunct2, THEN conjunct1, rule_format]
  note Fr = Operation.IH(2) [THEN conjunct2, THEN conjunct2, rule_format]
  let ?L = "if is_Operation l \<and> precedence f > precedence (op l)
            then Punct LParen # tokens_of l @ [Punct RParen] else tokens_of l"
  let ?R = "if is_Operation r \<and> precedence f \<ge> precedence (op r)
            then Punct LParen # tokens_of r @ [Punct RParen] else tokens_of r"
  have group: "parseFactor (Yield (Punct LParen) # map Yield (tokens_of x) @ Yield (Punct RParen) # rest)
                 = Inr (x, rest)"
    if "\<And>rest. stops TermLevel rest \<Longrightarrow>
          opParser ExprLevel (map Yield (tokens_of x) @ rest) = opLoop ExprLevel x rest"
    for x rest
    by (rule parseFactor_group) (simp add: that opLoop_stops)
  show ?case
  proof (cases "precedence f = 0")
    case True
    have R: "opParser TermLevel (map Yield ?R @ rest) = Inr (r, rest)"
      if "stops TermLevel rest" for rest
    proof (cases "is_Operation r \<and> precedence f \<ge> precedence (op r)")
      case paren: True
      then have R: "?R = Punct LParen # tokens_of r @ [Punct RParen]" by auto
      show ?thesis
        unfolding R using group [OF Er, of rest] that by (simp add: opParser_Term opLoop_stops)
    next
      case False
      then have R: "?R = tokens_of r" by auto
      from False True have "\<not> (is_Operation r \<and> precedence (op r) = 0)" by auto
      from Tr [OF this, of rest] that show ?thesis unfolding R by (simp add: opLoop_stops)
    qed
    have L: "?L = tokens_of l" using True by simp
    have "opParser ExprLevel (map Yield (tokens_of (Operation f l r)) @ rest)
            = opLoop ExprLevel (Operation f l r) rest" if s: "stops TermLevel rest" for rest
    proof -
      have "opParser ExprLevel (map Yield (tokens_of (Operation f l r)) @ rest)
              = opParser ExprLevel (map Yield (tokens_of l) @ Yield (Punct (Op f)) # map Yield ?R @ rest)"
        using L by simp
      also have "\<dots> = opLoop ExprLevel l (Yield (Punct (Op f)) # map Yield ?R @ rest)"
        by (rule El) (use True in \<open>cases f; simp\<close>)
      also have "\<dots> = opLoop ExprLevel (Operation f l r) rest"
        using True R [OF s] by (cases f) (simp_all add: opLoop_step)
      finally show ?thesis .
    qed
    moreover have "is_Operation (Operation f l r) \<and> precedence (op (Operation f l r)) = 0"
      using True by simp
    ultimately show ?thesis by blast
  next
    case False
    then have p1: "precedence f = 1" using precedence_cases [of f] by simp
    have R: "parseFactor (map Yield ?R @ rest) = Inr (r, rest)" for rest
    proof (cases "is_Operation r")
      case True
      then have "is_Operation r \<and> precedence f \<ge> precedence (op r)"
        using p1 precedence_cases [of "op r"] by auto
      then have R: "?R = Punct LParen # tokens_of r @ [Punct RParen]" by auto
      show ?thesis unfolding R using group [OF Er, of rest] by simp
    next
      case False
      then have R: "?R = tokens_of r" by auto
      from Fr [OF False, of rest] show ?thesis unfolding R by simp
    qed
    have L: "opParser TermLevel (map Yield ?L @ rest) = opLoop TermLevel l rest" for rest
    proof (cases "is_Operation l \<and> precedence f > precedence (op l)")
      case True
      then have L: "?L = Punct LParen # tokens_of l @ [Punct RParen]" by auto
      show ?thesis unfolding L using group [OF El, of rest] by (simp add: opParser_Term)
    next
      case False
      then have L: "?L = tokens_of l" by auto
      from False p1 have "\<not> (is_Operation l \<and> precedence (op l) = 0)" by auto
      from Tl [OF this, of rest] show ?thesis unfolding L by simp
    qed
    have T: "opParser TermLevel (map Yield (tokens_of (Operation f l r)) @ rest)
            = opLoop TermLevel (Operation f l r) rest" for rest
    proof -
      have "opParser TermLevel (map Yield (tokens_of (Operation f l r)) @ rest)
              = opParser TermLevel (map Yield ?L @ Yield (Punct (Op f)) # map Yield ?R @ rest)"
        by simp
      also have "\<dots> = opLoop TermLevel l (Yield (Punct (Op f)) # map Yield ?R @ rest)"
        by (rule L)
      also have "\<dots> = opLoop TermLevel (Operation f l r) rest"
        using p1 R [of rest] by (cases f) (simp_all add: opLoop_step)
      finally show ?thesis .
    qed
    have "opParser ExprLevel (map Yield (tokens_of (Operation f l r)) @ rest)
            = opLoop ExprLevel (Operation f l r) rest" if s: "stops TermLevel rest" for rest
      using T [of rest] s by (simp add: opParser_Expr opLoop_stops del: tokens_of.simps)
    moreover have "is_Operation (Operation f l r)" by simp
    ultimately show ?thesis using T by blast
  qed
qed

text \<open>
  The texts of operands that the lexer reads back as one token. A text is \<open>delimited\<close>
  when it is empty or starts with the space or the closing parenthesis that follows an
  operand in the printer's output. The digits of a number are plain decimal notation:
  digits, and optionally a point and digits.
\<close>

definition delimited :: "string \<Rightarrow> bool" where
  "delimited rest = (case rest of [] \<Rightarrow> True | c # cs \<Rightarrow> c = CHR '' '' \<or> c = CHR '')'')"

definition plain_digits :: "string \<Rightarrow> bool" where
  "plain_digits ds = (ds \<noteq> [] \<and> (\<forall>c\<in>set ds. is_digit c))"

definition decimal_text :: "string \<Rightarrow> bool" where
  "decimal_text t = (\<exists>w f. plain_digits w \<and> (t = w \<or> plain_digits f \<and> t = w @ CHR ''.'' # f))"

definition count_text :: "(real \<Rightarrow> string) \<Rightarrow> nat \<Rightarrow> bool" where
  "count_text digits k =
     (k = 0 \<or> plain_digits (digits (real k)) \<and> digits_value (digits (real k)) = k)"

text \<open>
  An expression is \<open>printable\<close> when each literal is a finite number that the host prints
  in plain decimal notation and reads back as the same number, each name is a symbol of
  the lexer, and the counts of each roll are printed in digits with that value.
\<close>

fun printable :: "(real \<Rightarrow> string) \<Rightarrow> expression \<Rightarrow> bool" where
  "printable digits (Literal v) =
     (case v of
        Fin x \<Rightarrow> x \<noteq> 0 \<longrightarrow> decimal_text (digits \<bar>x\<bar>) \<and> literal_value (digits \<bar>x\<bar>) = Fin \<bar>x\<bar>
      | _ \<Rightarrow> False)"
| "printable digits (Reference name) =
     (\<exists>c cs. name = c # cs \<and> is_sym_start c \<and> (\<forall>d\<in>set cs. is_sym_char d))"
| "printable digits (Roll k s m) = (count_text digits k \<and> count_text digits s)"
| "printable digits (Operation f l r) = (printable digits l \<and> printable digits r)"

lemma span_digits:
  assumes "\<forall>c\<in>set w. P c" and "rest = [] \<or> \<not> P (hd rest)"
  shows "takeWhile P (w @ rest) = w" and "dropWhile P (w @ rest) = rest"
proof -
  from assms(2) have t: "takeWhile P rest = []" and d: "dropWhile P rest = rest"
    by (cases rest; simp)+
  from assms(1) show "takeWhile P (w @ rest) = w" by (simp add: takeWhile_append2 t)
  from assms(1) show "dropWhile P (w @ rest) = rest" by (simp add: dropWhile_append2 d)
qed

lemma digit_facts:
  "is_digit c \<Longrightarrow> \<not> is_space c"
  "is_digit c \<Longrightarrow> \<not> is_sym_start c"
  "is_digit c \<Longrightarrow> c \<noteq> CHR ''-''"
  "is_digit c \<Longrightarrow> c \<noteq> CHR ''d''"
  "is_digit c \<Longrightarrow> c \<noteq> CHR ''.''"
  by (auto simp: is_digit_def is_space_def is_sym_start_def is_letter_def)

lemma delimiter_facts:
  "\<not> is_digit CHR '' ''" "\<not> is_digit CHR '')''" "\<not> is_digit CHR ''.''" "\<not> is_digit CHR ''d''"
  "\<not> is_digit CHR ''h''" "\<not> is_digit CHR ''l''"
  "\<not> is_sym_char CHR '' ''" "\<not> is_sym_char CHR '')''"
  by (simp_all add: is_digit_def is_sym_char_def is_letter_def)

lemma delimited_not_digit: "delimited rest \<Longrightarrow> rest = [] \<or> \<not> is_digit (hd rest)"
  by (cases rest) (auto simp: delimited_def delimiter_facts)

lemma delimited_not_sym: "delimited rest \<Longrightarrow> rest = [] \<or> \<not> is_sym_char (hd rest)"
  by (cases rest) (auto simp: delimited_def delimiter_facts)

lemma match_lit_whole:
  assumes tk: "takeWhile is_digit s = w" and wne: "w \<noteq> []" and dr: "dropWhile is_digit s = s1"
    and s1: "s1 = [] \<or> hd s1 \<noteq> CHR ''.''"
  shows "\<not> (s \<noteq> [] \<and> hd s = CHR ''-'') \<Longrightarrow> match_lit s = Some (w, s1)"
    and "match_lit (CHR ''-'' # s) = Some (CHR ''-'' # w, s1)"
proof -
  show "match_lit (CHR ''-'' # s) = Some (CHR ''-'' # w, s1)"
  proof (cases s1)
    case Nil
    with dr have dr': "dropWhile is_digit s = []" by simp
    show ?thesis by (simp add: match_lit_def Let_def tk wne dr' Nil)
  next
    case (Cons c s2)
    with s1 have c: "c \<noteq> CHR ''.''" by simp
    from dr Cons have dr': "dropWhile is_digit s = c # s2" by simp
    show ?thesis by (simp add: match_lit_def Let_def tk wne dr' Cons c)
  qed
  assume ns: "\<not> (s \<noteq> [] \<and> hd s = CHR ''-'')"
  show "match_lit s = Some (w, s1)"
  proof (cases s1)
    case Nil
    with dr have dr': "dropWhile is_digit s = []" by simp
    show ?thesis by (simp add: match_lit_def Let_def ns tk wne dr' Nil)
  next
    case (Cons c s2)
    with s1 have c: "c \<noteq> CHR ''.''" by simp
    from dr Cons have dr': "dropWhile is_digit s = c # s2" by simp
    show ?thesis by (simp add: match_lit_def Let_def ns tk wne dr' Cons c)
  qed
qed

lemma match_lit_frac:
  assumes tk: "takeWhile is_digit s = w" and wne: "w \<noteq> []"
    and dr: "dropWhile is_digit s = CHR ''.'' # s2"
    and tk2: "takeWhile is_digit s2 = f" and fne: "f \<noteq> []" and dr2: "dropWhile is_digit s2 = rest"
  shows "\<not> (s \<noteq> [] \<and> hd s = CHR ''-'') \<Longrightarrow> match_lit s = Some (w @ CHR ''.'' # f, rest)"
    and "match_lit (CHR ''-'' # s) = Some (CHR ''-'' # w @ CHR ''.'' # f, rest)"
proof -
  show "match_lit (CHR ''-'' # s) = Some (CHR ''-'' # w @ CHR ''.'' # f, rest)"
    by (simp add: match_lit_def Let_def tk wne dr tk2 fne dr2)
  assume ns: "\<not> (s \<noteq> [] \<and> hd s = CHR ''-'')"
  show "match_lit s = Some (w @ CHR ''.'' # f, rest)"
    by (simp add: match_lit_def Let_def ns tk wne dr tk2 fne dr2)
qed

lemma match_lit_plain:
  assumes t: "decimal_text t" and rest: "delimited rest"
  shows "match_lit (t @ rest) = Some (t, rest)"
    and "match_lit (CHR ''-'' # t @ rest) = Some (CHR ''-'' # t, rest)"
proof -
  from t obtain w f where w: "plain_digits w"
    and tf: "t = w \<or> plain_digits f \<and> t = w @ CHR ''.'' # f" by (auto simp: decimal_text_def)
  from w have wne: "w \<noteq> []" and wd: "\<forall>c\<in>set w. is_digit c" by (simp_all add: plain_digits_def)
  then have "is_digit (hd w)" by simp
  then have hdw: "hd w \<noteq> CHR ''-''" by (rule digit_facts)
  have nosign: "\<not> (w @ s \<noteq> [] \<and> hd (w @ s) = CHR ''-'')" for s using wne hdw by simp
  have "match_lit (t @ rest) = Some (t, rest)
      \<and> match_lit (CHR ''-'' # t @ rest) = Some (CHR ''-'' # t, rest)"
  proof (rule disjE [OF tf])
    assume tw: "t = w"
    from span_digits [OF wd delimited_not_digit [OF rest]]
    have tk: "takeWhile is_digit (w @ rest) = w" and dr: "dropWhile is_digit (w @ rest) = rest"
      by blast+
    have d: "rest = [] \<or> hd rest \<noteq> CHR ''.''"
      using rest by (cases rest) (auto simp: delimited_def)
    from match_lit_whole(1) [OF tk wne dr d nosign] match_lit_whole(2) [OF tk wne dr d]
    show ?thesis unfolding tw by blast
  next
    assume "plain_digits f \<and> t = w @ CHR ''.'' # f"
    then have f: "plain_digits f" and tw: "t = w @ CHR ''.'' # f" by blast+
    from f have fd: "\<forall>c\<in>set f. is_digit c" and fne: "f \<noteq> []" by (simp_all add: plain_digits_def)
    have "CHR ''.'' # f @ rest = [] \<or> \<not> is_digit (hd (CHR ''.'' # f @ rest))"
      using delimiter_facts by simp
    from span_digits [OF wd this]
    have tk: "takeWhile is_digit (w @ CHR ''.'' # f @ rest) = w"
      and dr: "dropWhile is_digit (w @ CHR ''.'' # f @ rest) = CHR ''.'' # f @ rest"
      by blast+
    from span_digits [OF fd delimited_not_digit [OF rest]]
    have tk2: "takeWhile is_digit (f @ rest) = f" and dr2: "dropWhile is_digit (f @ rest) = rest"
      by blast+
    have e: "t @ rest = w @ CHR ''.'' # f @ rest" by (simp add: tw)
    from match_lit_frac(1) [OF tk wne dr tk2 fne dr2 nosign]
      match_lit_frac(2) [OF tk wne dr tk2 fne dr2]
    show ?thesis unfolding e unfolding tw by simp
  qed
  then show "match_lit (t @ rest) = Some (t, rest)"
    and "match_lit (CHR ''-'' # t @ rest) = Some (CHR ''-'' # t, rest)" by blast+
qed

lemma decimal_text_start: "decimal_text t \<Longrightarrow> t \<noteq> [] \<and> is_digit (hd t)"
  by (auto simp: decimal_text_def plain_digits_def)

lemma match_dice_intro:
  assumes tk: "takeWhile is_digit s = d" and dne: "d \<noteq> []"
    and dr: "dropWhile is_digit s = CHR ''d'' # s2"
    and tk2: "takeWhile is_digit s2 = sd" and sne: "sd \<noteq> []" and dr2: "dropWhile is_digit s2 = s3"
  shows "match_dice s =
     (case s3 of
        [] \<Rightarrow> Some ((d, sd, None), s3)
      | m # s4 \<Rightarrow>
          if m = CHR ''h'' then Some ((d, sd, Some KeepHighest), s4)
          else if m = CHR ''l'' then Some ((d, sd, Some KeepLowest), s4)
          else Some ((d, sd, None), s3))"
  by (cases s3) (simp_all add: match_dice_def Let_def tk dne dr tk2 sne dr2)

lemma match_dice_none:
  assumes tk: "takeWhile is_digit s = d" and dr: "dropWhile is_digit s = s1"
    and e: "d = [] \<or> s1 = [] \<or> hd s1 \<noteq> CHR ''d''"
  shows "match_dice s = None"
proof (cases "d = []")
  case True
  then show ?thesis by (simp add: match_dice_def Let_def tk)
next
  case dne: False
  show ?thesis
  proof (cases s1)
    case Nil
    with dr have dr': "dropWhile is_digit s = []" by simp
    show ?thesis by (simp add: match_dice_def Let_def tk dr')
  next
    case (Cons c s2)
    with e dne have c: "c \<noteq> CHR ''d''" by simp
    from dr Cons have dr': "dropWhile is_digit s = c # s2" by simp
    show ?thesis by (simp add: match_dice_def Let_def tk dr' c)
  qed
qed

lemma match_sym_none: "s = [] \<or> \<not> is_sym_start (hd s) \<Longrightarrow> match_sym s = None"
  by (cases s) (auto simp: match_sym_def)

lemma next_token_literal:
  assumes t: "decimal_text t" and rest: "delimited rest"
  shows "next_token (t @ rest) = Some (Operand (Literal (literal_value t)), rest)"
    and "next_token (CHR ''-'' # t @ rest)
      = Some (Operand (Literal (literal_value (CHR ''-'' # t))), rest)"
proof -
  from decimal_text_start [OF t] have tne: "t \<noteq> []" and hd: "is_digit (hd t)" by simp_all
  from t obtain w f where w: "plain_digits w"
    and tf: "t = w \<or> plain_digits f \<and> t = w @ CHR ''.'' # f" by (auto simp: decimal_text_def)
  from w have wne: "w \<noteq> []" and wd: "\<forall>c\<in>set w. is_digit c" by (simp_all add: plain_digits_def)
  define s where "s = t @ rest"
  have sne: "s \<noteq> []" and hds: "is_digit (hd s)" using tne hd by (simp_all add: s_def)
  have sp: "dropWhile is_space s = s"
    using sne hds digit_facts(1) by (cases s) auto
  have sym: "match_sym s = None"
    using sne hds digit_facts(2) by (intro match_sym_none) simp
  have dice: "match_dice s = None"
  proof -
    have "\<exists>s1. s = w @ s1 \<and> (s1 = [] \<or> (\<not> is_digit (hd s1) \<and> hd s1 \<noteq> CHR ''d''))"
    proof (rule disjE [OF tf])
      assume "t = w"
      moreover have "rest = [] \<or> (\<not> is_digit (hd rest) \<and> hd rest \<noteq> CHR ''d'')"
        using rest by (cases rest) (auto simp: delimited_def delimiter_facts)
      ultimately show ?thesis unfolding s_def by blast
    next
      assume "plain_digits f \<and> t = w @ CHR ''.'' # f"
      then have "s = w @ (CHR ''.'' # f @ rest)" by (simp add: s_def)
      then show ?thesis using delimiter_facts by (intro exI [of _ "CHR ''.'' # f @ rest"]) simp
    qed
    then obtain s1 where s1: "s = w @ s1"
      and e: "s1 = [] \<or> (\<not> is_digit (hd s1) \<and> hd s1 \<noteq> CHR ''d'')" by blast
    from e have "s1 = [] \<or> \<not> is_digit (hd s1)" by blast
    from span_digits [OF wd this]
    have "takeWhile is_digit s = w" "dropWhile is_digit s = s1" unfolding s1 by blast+
    moreover from e have "w = [] \<or> s1 = [] \<or> hd s1 \<noteq> CHR ''d''" by blast
    ultimately show ?thesis by (rule match_dice_none)
  qed
  from match_lit_plain(1) [OF t rest] have lit: "match_lit s = Some (t, rest)" by (simp add: s_def)
  have "next_token s = Some (Operand (Literal (literal_value t)), rest)"
    by (simp add: next_token_def sp sym dice lit)
  then show "next_token (t @ rest) = Some (Operand (Literal (literal_value t)), rest)"
    by (simp add: s_def)
  from match_lit_plain(2) [OF t rest]
  have lit': "match_lit (CHR ''-'' # s) = Some (CHR ''-'' # t, rest)" by (simp add: s_def)
  have "match_dice (CHR ''-'' # s) = None"
    by (rule match_dice_none [of _ "[]" "CHR ''-'' # s"]) (simp_all add: not_digit_minus)
  then have "next_token (CHR ''-'' # s)
      = Some (Operand (Literal (literal_value (CHR ''-'' # t))), rest)"
    by (simp add: next_token_def not_space_minus match_sym_def not_sym_start_minus lit')
  then show "next_token (CHR ''-'' # t @ rest)
      = Some (Operand (Literal (literal_value (CHR ''-'' # t))), rest)"
    by (simp add: s_def)
qed

lemma next_token_Some_nonempty: "next_token s = Some p \<Longrightarrow> s \<noteq> []"
  by (auto simp: next_token_def match_sym_def match_dice_def match_lit_def match_op_def)

lemma tokenize_step: "next_token s = Some (t, rest) \<Longrightarrow> tokenize s = Yield t # tokenize rest"
  using next_token_Some_nonempty [of s "(t, rest)"] by (subst tokenize.simps) simp

lemma tokenize_Nil: "tokenize [] = []"
  by (subst tokenize.simps) simp

lemma tokenize_space: "s \<noteq> [] \<Longrightarrow> tokenize (CHR '' '' # s) = tokenize s"
proof -
  assume s: "s \<noteq> []"
  have "next_token (CHR '' '' # s) = next_token s" by (simp add: next_token_def is_space_def)
  then show ?thesis using s by (subst tokenize.simps, subst (2) tokenize.simps) simp
qed

lemma is_space_cases:
  assumes "is_space c"
  shows "c \<in> {CHR 0x09, CHR 0x0A, CHR 0x0B, CHR 0x0C, CHR 0x0D, CHR '' '', CHR 0xA0}"
proof -
  have e: "of_char c = (n::nat) \<Longrightarrow> of_char d = n \<Longrightarrow> c = d" for n d
    by (simp flip: of_char_eq_iff [where ?'a = nat])
  from assms have "of_char c = (9::nat) \<or> of_char c = (10::nat) \<or> of_char c = (11::nat)
      \<or> of_char c = (12::nat) \<or> of_char c = (13::nat) \<or> of_char c = (32::nat)
      \<or> of_char c = (160::nat)"
    by (simp add: is_space_def)
  then show ?thesis
    using e [of 9 "CHR 0x09"] e [of 10 "CHR 0x0A"] e [of 11 "CHR 0x0B"] e [of 12 "CHR 0x0C"]
      e [of 13 "CHR 0x0D"] e [of 32 "CHR '' ''"] e [of 160 "CHR 0xA0"]
    by auto
qed

lemma sym_facts:
  "is_sym_start c \<Longrightarrow> \<not> is_space c"
  "is_sym_char c \<Longrightarrow> \<not> is_space c"
proof -
  have "\<not> is_sym_start c \<and> \<not> is_sym_char c" if "is_space c"
    using is_space_cases [OF that]
    by (auto simp: is_sym_start_def is_sym_char_def is_letter_def)
  then show "is_sym_start c \<Longrightarrow> \<not> is_space c" "is_sym_char c \<Longrightarrow> \<not> is_space c" by blast+
qed

lemma next_token_name:
  assumes c: "is_sym_start c" and cs: "\<forall>d\<in>set cs. is_sym_char d" and rest: "delimited rest"
  shows "next_token (c # cs @ rest) = Some (Operand (Reference (c # cs)), rest)"
proof -
  from span_digits [OF cs delimited_not_sym [OF rest]]
  have tk: "takeWhile is_sym_char (cs @ rest) = cs" and dr: "dropWhile is_sym_char (cs @ rest) = rest"
    by blast+
  show ?thesis using c sym_facts(1) [OF c] by (simp add: next_token_def match_sym_def tk dr)
qed

lemma next_token_punct:
  "next_token (CHR ''('' # s) = Some (Punct LParen, s)"
  "next_token (CHR '')'' # s) = Some (Punct RParen, s)"
  "next_token (CHR ''+'' # s) = Some (Punct (Op Plus), s)"
  "next_token (CHR ''*'' # s) = Some (Punct (Op Times), s)"
  "next_token (CHR ''/'' # s) = Some (Punct (Op Divide), s)"
  "next_token (CHR ''-'' # CHR '' '' # s) = Some (Punct (Op Minus), CHR '' '' # s)"
  by (simp_all add: next_token_def match_sym_def match_dice_def match_lit_def match_op_def
      is_space_def is_digit_def is_sym_start_def is_letter_def)

lemma tokenize_operator:
  "tokenize (CHR '' '' # operatorToString f @ CHR '' '' # s)
     = Yield (Punct (Op f)) # tokenize (CHR '' '' # s)"
proof -
  have "tokenize (CHR '' '' # operatorToString f @ CHR '' '' # s)
      = tokenize (operatorToString f @ CHR '' '' # s)"
    by (rule tokenize_space) (cases f; simp)
  also have "\<dots> = Yield (Punct (Op f)) # tokenize (CHR '' '' # s)"
    by (cases f) (simp_all add: tokenize_step next_token_punct)
  finally show ?thesis .
qed

lemma literal_value_zero: "literal_value ''0'' = Fin 0"
  by (simp add: literal_value_def Let_def digits_value_def digit_value_def is_digit_def)

lemma digits_value_zero: "digits_value ''0'' = 0"
  by (simp add: digits_value_def digit_value_def)

lemma literal_value_signed:
  assumes "literal_value t = Fin x" and "t \<noteq> []" and "hd t \<noteq> CHR ''-''"
  shows "literal_value (CHR ''-'' # t) = Fin (- x)"
  using assms by (simp add: literal_value_def Let_def)

lemma plain_digits_zero: "plain_digits ''0''"
  by (simp add: plain_digits_def is_digit_def)

lemma decimal_text_zero: "decimal_text ''0''"
  unfolding decimal_text_def using plain_digits_zero by blast

lemma next_token_number:
  assumes "printable digits (Literal v)" and rest: "delimited rest"
  shows "next_token (numberToString digits v @ rest) = Some (Operand (Literal v), rest)"
proof -
  from assms(1) obtain x where v: "v = Fin x"
    and p: "x \<noteq> 0 \<Longrightarrow> decimal_text (digits \<bar>x\<bar>) \<and> literal_value (digits \<bar>x\<bar>) = Fin \<bar>x\<bar>"
    by (cases v) auto
  consider "x = 0" | "0 < x" | "x < 0" by linarith
  then have "next_token (numberToString digits (Fin x) @ rest) = Some (Operand (Literal (Fin x)), rest)"
  proof cases
    case 1
    then have n: "numberToString digits (Fin x) = ''0''" by (simp add: numberToString_def)
    from next_token_literal(1) [OF decimal_text_zero rest]
    show ?thesis unfolding n literal_value_zero using 1 by simp
  next
    case 2
    then have n: "numberToString digits (Fin x) = digits x" by (simp add: numberToString_def)
    from 2 p have d: "decimal_text (digits x)" and l: "literal_value (digits x) = Fin x" by simp_all
    from next_token_literal(1) [OF d rest] show ?thesis unfolding n l .
  next
    case 3
    then have n: "numberToString digits (Fin x) = CHR ''-'' # digits (- x)"
      by (simp add: numberToString_def)
    from 3 p have d: "decimal_text (digits (- x))" and l: "literal_value (digits (- x)) = Fin (- x)"
      by simp_all
    from decimal_text_start [OF d] digit_facts(3)
    have "digits (- x) \<noteq> []" "hd (digits (- x)) \<noteq> CHR ''-''" by blast+
    from literal_value_signed [OF l this]
    have l': "literal_value (CHR ''-'' # digits (- x)) = Fin x" by simp
    from next_token_literal(2) [OF d rest] show ?thesis unfolding n l' by simp
  qed
  then show ?thesis unfolding v .
qed

lemma count_digits:
  assumes "count_text digits k"
  shows "plain_digits (numberToString digits (Fin (real k)))"
    and "digits_value (numberToString digits (Fin (real k))) = k"
proof -
  have "plain_digits (numberToString digits (Fin (real k)))
      \<and> digits_value (numberToString digits (Fin (real k))) = k"
  proof (cases "k = 0")
    case True
    then show ?thesis by (simp add: numberToString_def plain_digits_zero digits_value_zero)
  next
    case False
    with assms show ?thesis by (simp add: numberToString_def count_text_def)
  qed
  then show "plain_digits (numberToString digits (Fin (real k)))"
    and "digits_value (numberToString digits (Fin (real k))) = k" by blast+
qed

text \<open>The text of the modifier of a roll.\<close>

definition mod_text :: "dicemod option \<Rightarrow> string" where
  "mod_text m = (case m of None \<Rightarrow> [] | Some KeepHighest \<Rightarrow> ''h'' | Some KeepLowest \<Rightarrow> ''l'')"

lemma next_token_roll:
  assumes d: "plain_digits d" and sd: "plain_digits sd" and rest: "delimited rest"
  shows "next_token (d @ CHR ''d'' # sd @ mod_text m @ rest)
      = Some (Operand (Roll (digits_value d) (digits_value sd) m), rest)"
proof -
  define s where "s = d @ CHR ''d'' # sd @ mod_text m @ rest"
  from d have dne: "d \<noteq> []" and dd: "\<forall>c\<in>set d. is_digit c" by (simp_all add: plain_digits_def)
  from sd have sne: "sd \<noteq> []" and sdd: "\<forall>c\<in>set sd. is_digit c" by (simp_all add: plain_digits_def)
  have sn: "s \<noteq> []" and hds: "is_digit (hd s)" using dne dd by (simp_all add: s_def)
  have sp: "dropWhile is_space s = s" using sn hds digit_facts(1) by (cases s) auto
  have sym: "match_sym s = None" using sn hds digit_facts(2) by (intro match_sym_none) simp
  have "CHR ''d'' # sd @ mod_text m @ rest = [] \<or> \<not> is_digit (hd (CHR ''d'' # sd @ mod_text m @ rest))"
    using delimiter_facts by simp
  from span_digits [OF dd this]
  have tk: "takeWhile is_digit s = d" and dr: "dropWhile is_digit s = CHR ''d'' # sd @ mod_text m @ rest"
    unfolding s_def by blast+
  have "mod_text m @ rest = [] \<or> \<not> is_digit (hd (mod_text m @ rest))"
    using delimited_not_digit [OF rest] delimiter_facts
    by (cases m rule: option.exhaust; cases "the m"; simp add: mod_text_def)
  from span_digits [OF sdd this]
  have tk2: "takeWhile is_digit (sd @ mod_text m @ rest) = sd"
    and dr2: "dropWhile is_digit (sd @ mod_text m @ rest) = mod_text m @ rest" by blast+
  have "match_dice s = Some ((d, sd, m), rest)"
  proof (cases m)
    case None
    show ?thesis
      unfolding match_dice_intro [OF tk dne dr tk2 sne dr2]
      using rest by (cases rest) (auto simp: None mod_text_def delimited_def)
  next
    case (Some k)
    show ?thesis
      unfolding match_dice_intro [OF tk dne dr tk2 sne dr2]
      by (cases k) (simp_all add: Some mod_text_def)
  qed
  then have "next_token s = Some (Operand (Roll (digits_value d) (digits_value sd) m), rest)"
    by (simp add: next_token_def sp sym)
  then show ?thesis by (simp add: s_def)
qed

lemma toString_Roll:
  "toString digits (Roll k s m) =
     numberToString digits (Fin (real k)) @ CHR ''d'' # numberToString digits (Fin (real s)) @ mod_text m"
  by (cases m rule: option.exhaust; cases "the m"; simp add: mod_text_def)

lemma next_token_operand:
  assumes p: "printable digits e" and e: "\<not> is_Operation e" and rest: "delimited rest"
  shows "next_token (toString digits e @ rest) = Some (Operand e, rest)"
proof (cases e)
  case (Literal v)
  with p next_token_number [OF _ rest, of digits v] show ?thesis by simp
next
  case (Reference name)
  with p obtain c cs where "name = c # cs" "is_sym_start c" "\<forall>d\<in>set cs. is_sym_char d" by auto
  with next_token_name [OF _ _ rest, of c cs] Reference show ?thesis by simp
next
  case (Roll k s m)
  with p have k: "count_text digits k" and s: "count_text digits s" by simp_all
  from next_token_roll [OF count_digits(1) [OF k] count_digits(1) [OF s] rest, of m]
  show ?thesis unfolding Roll toString_Roll count_digits(2) [OF k] count_digits(2) [OF s] by simp
next
  case (Operation f l r)
  with e show ?thesis by simp
qed

lemma toString_ends:
  "printable digits e \<Longrightarrow>
   toString digits e \<noteq> [] \<and> \<not> is_space (hd (toString digits e))
     \<and> \<not> is_space (last (toString digits e))"
proof (induction e)
  case (Literal v)
  then obtain x where v: "v = Fin x"
    and p: "x \<noteq> 0 \<Longrightarrow> decimal_text (digits \<bar>x\<bar>)" by (cases v) auto
  have dt: "decimal_text t \<Longrightarrow> t \<noteq> [] \<and> \<not> is_space (hd t) \<and> \<not> is_space (last t)" for t
    using digit_facts(1) by (auto simp: decimal_text_def plain_digits_def)
  consider "x = 0" | "0 < x" | "x < 0" by linarith
  then show ?case
  proof cases
    case 1
    then show ?thesis by (simp add: v numberToString_def is_space_def)
  next
    case 2
    with p dt [of "digits x"] show ?thesis by (simp add: v numberToString_def)
  next
    case 3
    with p dt [of "digits (- x)"] show ?thesis
      by (simp add: v numberToString_def not_space_minus)
  qed
next
  case (Reference name)
  then obtain c cs where n: "name = c # cs" and c: "is_sym_start c"
    and cs: "\<forall>d\<in>set cs. is_sym_char d" by auto
  show ?case using c cs sym_facts by (cases cs rule: rev_cases) (auto simp: n)
next
  case (Roll k s m)
  then have k: "count_text digits k" and s: "count_text digits s" by simp_all
  from count_digits(1) [OF k] have a: "numberToString digits (Fin (real k)) \<noteq> []"
    "is_digit (hd (numberToString digits (Fin (real k))))" by (simp_all add: plain_digits_def)
  from count_digits(1) [OF s] have b: "numberToString digits (Fin (real s)) \<noteq> []"
    "is_digit (last (numberToString digits (Fin (real s))))" by (simp_all add: plain_digits_def)
  show ?case unfolding toString_Roll using a b digit_facts(1)
    by (cases m rule: option.exhaust; cases "the m"; simp add: mod_text_def is_space_def)
next
  case (Operation f l r)
  then have l: "toString digits l \<noteq> []" "\<not> is_space (hd (toString digits l))"
    and r: "toString digits r \<noteq> []" "\<not> is_space (last (toString digits r))" by simp_all
  show ?case using l r by (simp add: is_space_def)
qed

lemma trim_toString: "printable digits e \<Longrightarrow> trim (toString digits e) = toString digits e"
proof -
  assume "printable digits e"
  from toString_ends [OF this] obtain c cs where s: "toString digits e = c # cs"
    and c: "\<not> is_space c" and l: "\<not> is_space (last (c # cs))"
    by (cases "toString digits e") auto
  have "dropWhile is_space (rev (c # cs)) = rev (c # cs)"
    using l by (cases "c # cs" rule: rev_cases) auto
  then show ?thesis using c unfolding s trim_def by simp
qed

lemma delimited_simps:
  "delimited []" "delimited (CHR '' '' # s)" "delimited (CHR '')'' # s)"
  by (simp_all add: delimited_def)

lemma toString_nonempty: "printable digits e \<Longrightarrow> toString digits e @ s \<noteq> []"
  using toString_ends [of digits e] by simp

text \<open>The lexer reads the text of a printable expression as the tokens of the expression.\<close>

lemma tokenize_toString:
  "printable digits e \<Longrightarrow> delimited rest \<Longrightarrow>
   tokenize (toString digits e @ rest) = map Yield (tokens_of e) @ tokenize rest"
proof (induction e arbitrary: rest)
  case (Operation f l r)
  then have pl: "printable digits l" and pr: "printable digits r" by simp_all
  define L where "L = (if is_Operation l \<and> precedence f > precedence (op l)
      then Punct LParen # tokens_of l @ [Punct RParen] else tokens_of l)"
  define R where "R = (if is_Operation r \<and> precedence f \<ge> precedence (op r)
      then Punct LParen # tokens_of r @ [Punct RParen] else tokens_of r)"
  define Ls where "Ls = (if is_Operation l \<and> precedence f > precedence (op l)
      then ''('' @ toString digits l @ '')'' else toString digits l)"
  define Rs where "Rs = (if is_Operation r \<and> precedence f \<ge> precedence (op r)
      then ''('' @ toString digits r @ '')'' else toString digits r)"
  have group: "tokenize (CHR ''('' # toString digits x @ CHR '')'' # s)
      = Yield (Punct LParen) # map Yield (tokens_of x) @ Yield (Punct RParen) # tokenize s"
    if ih: "tokenize (toString digits x @ CHR '')'' # s)
      = map Yield (tokens_of x) @ tokenize (CHR '')'' # s)" for x s
  proof -
    have "tokenize (CHR ''('' # toString digits x @ CHR '')'' # s)
        = Yield (Punct LParen) # tokenize (toString digits x @ CHR '')'' # s)"
      by (simp add: tokenize_step next_token_punct)
    also have "tokenize (CHR '')'' # s) = Yield (Punct RParen) # tokenize s"
      by (simp add: tokenize_step next_token_punct)
    ultimately show ?thesis using ih by simp
  qed
  have left: "tokenize (Ls @ s) = map Yield L @ tokenize s" if "delimited s" for s
  proof (cases "is_Operation l \<and> precedence f > precedence (op l)")
    case True
    then have e: "Ls = CHR ''('' # toString digits l @ '')''"
      "L = Punct LParen # tokens_of l @ [Punct RParen]" by (simp_all add: Ls_def L_def)
    from group [OF Operation.IH(1) [OF pl delimited_simps(3)], of s]
    show ?thesis unfolding e by simp
  next
    case False
    then have e: "Ls = toString digits l" "L = tokens_of l" by (simp_all add: Ls_def L_def)
    from Operation.IH(1) [OF pl that] show ?thesis unfolding e .
  qed
  have right: "tokenize (Rs @ s) = map Yield R @ tokenize s" if "delimited s" for s
  proof (cases "is_Operation r \<and> precedence f \<ge> precedence (op r)")
    case True
    then have e: "Rs = CHR ''('' # toString digits r @ '')''"
      "R = Punct LParen # tokens_of r @ [Punct RParen]" by (simp_all add: Rs_def R_def)
    from group [OF Operation.IH(2) [OF pr delimited_simps(3)], of s]
    show ?thesis unfolding e by simp
  next
    case False
    then have e: "Rs = toString digits r" "R = tokens_of r" by (simp_all add: Rs_def R_def)
    from Operation.IH(2) [OF pr that] show ?thesis unfolding e .
  qed
  have Rne: "Rs @ rest \<noteq> []" using toString_nonempty [OF pr] by (simp add: Rs_def)
  have "toString digits (Operation f l r) @ rest
      = Ls @ CHR '' '' # operatorToString f @ CHR '' '' # Rs @ rest"
    by (simp add: Ls_def Rs_def)
  then have "tokenize (toString digits (Operation f l r) @ rest)
      = tokenize (Ls @ CHR '' '' # operatorToString f @ CHR '' '' # Rs @ rest)" by simp
  also have "\<dots> = map Yield L @ tokenize (CHR '' '' # operatorToString f @ CHR '' '' # Rs @ rest)"
    by (rule left) (rule delimited_simps)
  also have "tokenize (CHR '' '' # operatorToString f @ CHR '' '' # Rs @ rest)
      = Yield (Punct (Op f)) # tokenize (CHR '' '' # Rs @ rest)"
    by (rule tokenize_operator)
  also have "tokenize (CHR '' '' # Rs @ rest) = tokenize (Rs @ rest)"
    using Rne by (rule tokenize_space)
  also have "\<dots> = map Yield R @ tokenize rest"
    using Operation.prems(2) by (rule right)
  finally show ?case by (simp add: L_def R_def)
next
  case (Literal v)
  from next_token_operand [OF Literal(1) _ Literal(2)] show ?case
    by (simp add: tokenize_step)
next
  case (Reference x)
  from next_token_operand [OF Reference(1) _ Reference(2)] show ?case
    by (simp add: tokenize_step)
next
  case (Roll k s m)
  from next_token_operand [OF Roll(1) _ Roll(2)] show ?case
    by (simp add: tokenize_step del: toString.simps)
qed

text \<open>\<open>parse\<close> of the text of a printable expression is the expression.\<close>

lemma parse_toString: "printable digits e \<Longrightarrow> parse (toString digits e) = Inr e"
proof -
  assume p: "printable digits e"
  from tokenize_toString [OF p delimited_simps(1)]
  have t: "tokenize (toString digits e) = map Yield (tokens_of e)" by (simp add: tokenize_Nil)
  from tokens_parsed [of e] have "opParser ExprLevel (map Yield (tokens_of e) @ []) = opLoop ExprLevel e []"
    by (elim conjE allE [of _ "[]"]) simp
  then have "opParser ExprLevel (map Yield (tokens_of e)) = Inr (e, [])"
    by (simp add: opLoop_stops)
  then show ?thesis by (simp add: parse_def parseExpr_def trim_toString [OF p] t)
qed

lemma print_parse_print:
  "printable digits e \<Longrightarrow>
   map_sum id (toString digits) (parse (toString digits e)) = Inr (toString digits e)"
  by (simp add: parse_toString)

text \<open>An expression that is printable, with its text.\<close>

lemma parse_toString_example:
  "parse (toString (\<lambda>x. if x = 3 then ''3'' else ''1.5'')
      (Operation Minus (Reference ''a'')
        (Operation Minus (Literal (Fin (- 3))) (Operation Times (Literal (Fin 1.5)) (Roll 3 0 (Some KeepHighest))))))
   = Inr (Operation Minus (Reference ''a'')
        (Operation Minus (Literal (Fin (- 3))) (Operation Times (Literal (Fin 1.5)) (Roll 3 0 (Some KeepHighest)))))"
proof (rule parse_toString)
  have d: "plain_digits ''3''" "plain_digits ''1''" "plain_digits ''5''"
    by (simp_all add: plain_digits_def is_digit_def)
  from d(1) have "decimal_text ''3''" unfolding decimal_text_def by blast
  moreover from d(2,3) have "decimal_text ''1.5''" unfolding decimal_text_def by fastforce
  moreover have "literal_value ''3'' = Fin 3" "literal_value ''1.5'' = Fin 1.5"
    by (simp_all add: literal_value_def Let_def digits_value_def digit_value_def is_digit_def)
  moreover have "digits_value ''3'' = 3" by (simp add: digits_value_def digit_value_def)
  ultimately show "printable (\<lambda>x. if x = 3 then ''3'' else ''1.5'')
      (Operation Minus (Reference ''a'')
        (Operation Minus (Literal (Fin (- 3))) (Operation Times (Literal (Fin 1.5)) (Roll 3 0 (Some KeepHighest)))))"
    using d(1) by (simp add: count_text_def is_sym_start_def is_letter_def)
qed

lemma toString_example:
  "toString (\<lambda>x. if x = 3 then ''3'' else ''1.5'')
      (Operation Minus (Reference ''a'')
        (Operation Minus (Literal (Fin (- 3))) (Operation Times (Literal (Fin 1.5)) (Roll 3 0 (Some KeepHighest)))))
   = ''a - (-3 - 1.5 * 3d0h)''"
  by (simp add: numberToString_def)

end
